theory Spec2Isabelle
  imports Main "HOL-Library.Word"
begin


unbundle bit_operations_syntax

text \<open>
  A model of \<open>FairResourceLock\<close>, the fair reader-writer lock of Process Hacker,
  and of \<open>MmCopyVirtualMemory\<close> of its driver.

  The lock's state word and the flags of a wait block are 32-bit words. The waiters
  list is kept as the code keeps it, as blocks in a store linked by \<open>Flink\<close> and
  \<open>Blink\<close>, and the list primitives are the pointer updates of the source.
  An operation that other threads can interleave with is a step function on a program
  counter and the shared state, one step per atomic access; what runs under the list
  lock is a function on the state. Loops that need a well-formed list to end return
  an option.
\<close>

section \<open>FairResourceLock: constants and data\<close>

text \<open>
  The C\# \<open>int\<close> is a 32-bit two's complement integer; outside a \<open>checked\<close>
  context, and the source has none, its arithmetic wraps, hence \<open>32 word\<close>.
  Pointers to wait blocks are addresses into an explicit store.
\<close>

type_synonym int32 = "32 word"
type_synonym addr = nat

definition LockOwned :: int32 where
  "LockOwned = 0x1"

definition LockWaiters :: int32 where
  "LockWaiters = 0x2"

definition LockSharedOwnersShift :: nat where
  "LockSharedOwnersShift = 2"

definition LockSharedOwnersMask :: int32 where
  "LockSharedOwnersMask = 0x3fffffff"

definition LockSharedOwnersIncrement :: int32 where
  "LockSharedOwnersIncrement = 0x4"

definition WaiterExclusive :: int32 where
  "WaiterExclusive = 0x1"

definition WaiterSpinning :: int32 where
  "WaiterSpinning = 0x2"

record WaitBlock =
  Flink :: addr
  Blink :: addr
  Flags :: int32

text \<open>
  The fields of the class, in the order of the source. \<open>m_lock\<close> is the
  \<open>SpinLock\<close>: true while some thread holds it. \<open>m_wakeEvent\<close> is the handle of
  the keyed event, 0 for \<open>IntPtr.Zero\<close>.
\<close>

record FairResourceLock =
  m_value :: int32
  m_spinCount :: int32
  m_wakeEvent :: nat
  m_lock :: bool
  m_waitersListHead :: addr
  m_firstSharedWaiter :: addr

text \<open>
  The state the lock's code runs on: the object itself, the memory holding the wait
  blocks (the sentinel on the unmanaged heap, every other block in the stack frame of
  its thread), and what the operating system keeps for the keyed event: per key, how
  many times \<open>NtWaitForKeyedEvent\<close> and \<open>NtReleaseKeyedEvent\<close> have been called,
  and the handles given to \<open>CloseHandle\<close>.
\<close>

record state = FairResourceLock +
  mem :: "addr \<Rightarrow> WaitBlock"
  kwaits :: "addr \<Rightarrow> nat"
  kreleases :: "addr \<Rightarrow> nat"
  closed :: "nat list"

text \<open>The properties \<open>Owned\<close> and \<open>SharedOwners\<close>. \<open>>>\<close> on a C\# \<open>int\<close> is the
  arithmetic shift.\<close>

definition Owned :: "int32 \<Rightarrow> bool" where
  "Owned v = (v AND LockOwned \<noteq> 0)"

definition SharedOwners :: "int32 \<Rightarrow> int32" where
  "SharedOwners v = signed_drop_bit LockSharedOwnersShift v AND LockSharedOwnersMask"

definition Waiters :: "int32 \<Rightarrow> bool" where
  "Waiters v = (v AND LockWaiters \<noteq> 0)"

section \<open>Atomic primitives\<close>

text \<open>\<open>Interlocked.CompareExchange(ref _value, new, comparand)\<close>: returns the value found,
  and stores \<open>new\<close> when that value is the comparand.\<close>

definition CompareExchange_value :: "int32 \<Rightarrow> int32 \<Rightarrow> state \<Rightarrow> int32 \<times> state" where
  "CompareExchange_value new comparand s =
     (m_value s, if m_value s = comparand then s\<lparr>m_value := new\<rparr> else s)"

text \<open>
  A thread is a step function on its program counter and the shared state; each step
  is one atomic access. Between two steps of a thread the other threads run: an
  execution is driven by a list of interferences, one applied before each step.
\<close>

fun run :: "('pc \<Rightarrow> state \<Rightarrow> 'pc \<times> state) \<Rightarrow> (state \<Rightarrow> state) list \<Rightarrow> 'pc \<Rightarrow> state
    \<Rightarrow> 'pc \<times> state" where
  "run stp [] pc s = (pc, s)"
| "run stp (e # es) pc s = (case stp pc (e s) of (pc', s') \<Rightarrow> run stp es pc' s')"

section \<open>TryAcquireExclusive, TryAcquireShared\<close>

datatype try_pc = Try_Read | Try_CompareExchange int32 int32 | Try_Return bool

fun TryAcquireExclusive_step :: "try_pc \<Rightarrow> state \<Rightarrow> try_pc \<times> state" where
  "TryAcquireExclusive_step Try_Read s =
     (let v = m_value s in
      if v AND LockOwned \<noteq> 0 then (Try_Return False, s)
      else (Try_CompareExchange (v + LockOwned) v, s))"
| "TryAcquireExclusive_step (Try_CompareExchange new v) s =
     (case CompareExchange_value new v s of (old, s') \<Rightarrow> (Try_Return (old = v), s'))"
| "TryAcquireExclusive_step (Try_Return b) s = (Try_Return b, s)"

fun TryAcquireShared_step :: "try_pc \<Rightarrow> state \<Rightarrow> try_pc \<times> state" where
  "TryAcquireShared_step Try_Read s =
     (let v = m_value s in
      if v AND LockOwned = 0 \<or>
         (v AND LockWaiters = 0 \<and>
          signed_drop_bit LockSharedOwnersShift v AND LockSharedOwnersMask \<noteq> 0)
      then
        (if v AND LockOwned = 0
         then (Try_CompareExchange (v + LockOwned + LockSharedOwnersIncrement) v, s)
         else (Try_CompareExchange (v + LockSharedOwnersIncrement) v, s))
      else (Try_Return False, s))"
| "TryAcquireShared_step (Try_CompareExchange new v) s =
     (case CompareExchange_value new v s of (old, s') \<Rightarrow> (Try_Return (old = v), s'))"
| "TryAcquireShared_step (Try_Return b) s = (Try_Return b, s)"


section \<open>The waiters list\<close>

text \<open>The four list primitives, statement by statement, on the store.\<close>

definition InsertHeadList :: "addr \<Rightarrow> addr \<Rightarrow> (addr \<Rightarrow> WaitBlock) \<Rightarrow> (addr \<Rightarrow> WaitBlock)" where
  "InsertHeadList listHead entry h =
     (let flink = Flink (h listHead);
          h1 = h(entry := (h entry)\<lparr>Flink := flink\<rparr>);
          h2 = h1(entry := (h1 entry)\<lparr>Blink := listHead\<rparr>);
          h3 = h2(flink := (h2 flink)\<lparr>Blink := entry\<rparr>);
          h4 = h3(listHead := (h3 listHead)\<lparr>Flink := entry\<rparr>)
      in h4)"

definition InsertTailList :: "addr \<Rightarrow> addr \<Rightarrow> (addr \<Rightarrow> WaitBlock) \<Rightarrow> (addr \<Rightarrow> WaitBlock)" where
  "InsertTailList listHead entry h =
     (let blink = Blink (h listHead);
          h1 = h(entry := (h entry)\<lparr>Flink := listHead\<rparr>);
          h2 = h1(entry := (h1 entry)\<lparr>Blink := blink\<rparr>);
          h3 = h2(blink := (h2 blink)\<lparr>Flink := entry\<rparr>);
          h4 = h3(listHead := (h3 listHead)\<lparr>Blink := entry\<rparr>)
      in h4)"

definition RemoveEntryList :: "addr \<Rightarrow> (addr \<Rightarrow> WaitBlock) \<Rightarrow> bool \<times> (addr \<Rightarrow> WaitBlock)" where
  "RemoveEntryList entry h =
     (let flink = Flink (h entry);
          blink = Blink (h entry);
          h1 = h(blink := (h blink)\<lparr>Flink := flink\<rparr>);
          h2 = h1(flink := (h1 flink)\<lparr>Blink := blink\<rparr>)
      in (flink = blink, h2))"

definition RemoveHeadList :: "addr \<Rightarrow> (addr \<Rightarrow> WaitBlock) \<Rightarrow> addr \<times> (addr \<Rightarrow> WaitBlock)" where
  "RemoveHeadList listHead h =
     (let entry = Flink (h listHead);
          flink = Flink (h entry);
          h1 = h(listHead := (h listHead)\<lparr>Flink := flink\<rparr>);
          h2 = h1(flink := (h1 flink)\<lparr>Blink := listHead\<rparr>)
      in (entry, h2))"

datatype ListPosition = First | LastExclusive | Last

fun InsertWaitBlock :: "addr \<Rightarrow> ListPosition \<Rightarrow> state \<Rightarrow> state" where
  "InsertWaitBlock waitBlock First s =
     s\<lparr>mem := InsertHeadList (m_waitersListHead s) waitBlock (mem s)\<rparr>"
| "InsertWaitBlock waitBlock LastExclusive s =
     s\<lparr>mem := InsertTailList (m_firstSharedWaiter s) waitBlock (mem s)\<rparr>"
| "InsertWaitBlock waitBlock Last s =
     s\<lparr>mem := InsertTailList (m_waitersListHead s) waitBlock (mem s)\<rparr>"

text \<open>The constructor: the sentinel is allocated with \<open>Marshal.AllocHGlobal\<close>, which
  does not clear memory, and only its two links are written; its \<open>Flags\<close> keep
  whatever the store held at that address.\<close>

definition FairResourceLock_new :: "int32 \<Rightarrow> nat \<Rightarrow> addr \<Rightarrow> (addr \<Rightarrow> WaitBlock) \<Rightarrow> state" where
  "FairResourceLock_new spinCount processorCount sentinel h =
     \<lparr>m_value = 0,
      m_spinCount = (if processorCount \<noteq> 1 then spinCount else 0),
      m_wakeEvent = 0,
      m_lock = False,
      m_waitersListHead = sentinel,
      m_firstSharedWaiter = sentinel,
      mem = h(sentinel := (h sentinel)\<lparr>Flink := sentinel, Blink := sentinel\<rparr>),
      kwaits = (\<lambda>_. 0),
      kreleases = (\<lambda>_. 0),
      closed = []\<rparr>"

text \<open>
  What each acquire does under the list lock once its \<open>CompareExchange\<close> of the
  waiters bit has succeeded (\<open>_insert\<close>), and the same preceded by the initialisation
  of the wait block in the caller's frame (\<open>_enqueue\<close>).
\<close>

definition AcquireExclusive_insert :: "addr \<Rightarrow> state \<Rightarrow> state" where
  "AcquireExclusive_insert waitBlock s = InsertWaitBlock waitBlock LastExclusive s"

definition AcquireShared_insert :: "addr \<Rightarrow> state \<Rightarrow> state" where
  "AcquireShared_insert waitBlock s =
     (let s1 = InsertWaitBlock waitBlock Last s;
          blink = Blink (mem s1 waitBlock)
      in if blink = m_waitersListHead s1 \<or> Flags (mem s1 blink) AND WaiterExclusive \<noteq> 0
         then s1\<lparr>m_firstSharedWaiter := waitBlock\<rparr>
         else s1)"

definition ConvertSharedToExclusive_insert :: "addr \<Rightarrow> state \<Rightarrow> state" where
  "ConvertSharedToExclusive_insert waitBlock s = InsertWaitBlock waitBlock First s"

definition set_Flags :: "addr \<Rightarrow> int32 \<Rightarrow> state \<Rightarrow> state" where
  "set_Flags waitBlock flags s = s\<lparr>mem := (mem s)(waitBlock := (mem s waitBlock)\<lparr>Flags := flags\<rparr>)\<rparr>"

definition AcquireExclusive_enqueue :: "addr \<Rightarrow> state \<Rightarrow> state" where
  "AcquireExclusive_enqueue waitBlock s =
     AcquireExclusive_insert waitBlock (set_Flags waitBlock (WaiterExclusive OR WaiterSpinning) s)"

definition AcquireShared_enqueue :: "addr \<Rightarrow> state \<Rightarrow> state" where
  "AcquireShared_enqueue waitBlock s =
     AcquireShared_insert waitBlock (set_Flags waitBlock WaiterSpinning s)"

definition ConvertSharedToExclusive_enqueue :: "addr \<Rightarrow> state \<Rightarrow> state" where
  "ConvertSharedToExclusive_enqueue waitBlock s =
     ConvertSharedToExclusive_insert waitBlock
       (set_Flags waitBlock (WaiterExclusive OR WaiterSpinning) s)"

section \<open>Block and Unblock\<close>

text \<open>\<open>Interlocked.CompareExchange(ref waitBlock->Flags, new, comparand)\<close>.\<close>

definition CompareExchange_Flags :: "addr \<Rightarrow> int32 \<Rightarrow> int32 \<Rightarrow> state \<Rightarrow> int32 \<times> state" where
  "CompareExchange_Flags waitBlock new comparand s =
     (Flags (mem s waitBlock),
      if Flags (mem s waitBlock) = comparand
      then s\<lparr>mem := (mem s)(waitBlock := (mem s waitBlock)\<lparr>Flags := new\<rparr>)\<rparr>
      else s)"

text \<open>
  What the operating system answers: the handle \<open>NtCreateKeyedEvent\<close> returns
  (\<open>None\<close> for a negative status) and the status of \<open>NtWaitForKeyedEvent\<close>.
  A wait on a key returns once a release on that key has matched it, and a release
  returns once a wait has matched it.
\<close>

record os =
  NtCreateKeyedEvent :: "nat option"
  NtWaitForKeyedEvent :: int32

datatype block_pc =
    B_Spin int32
  | B_Sleep
  | B_CreateWakeEvent
  | B_InstallWakeEvent nat
  | B_ReadFlags
  | B_ClearSpinning int32
  | B_Wait
  | B_Waiting
  | B_Busy
  | B_Return
  | B_Throw

fun Block_step :: "os \<Rightarrow> addr \<Rightarrow> bool \<Rightarrow> block_pc \<Rightarrow> state \<Rightarrow> block_pc \<times> state" where
  "Block_step env waitBlock sleep (B_Spin j) s =
     (if word_sless j (m_spinCount s) \<and> Flags (mem s waitBlock) AND WaiterSpinning \<noteq> 0
      then (B_Spin (j + 1), s)
      else if sleep then (B_Sleep, s) else (B_Busy, s))"
| "Block_step env waitBlock sleep B_Sleep s =
     (if m_wakeEvent s = 0 then (B_CreateWakeEvent, s) else (B_ReadFlags, s))"
| "Block_step env waitBlock sleep B_CreateWakeEvent s =
     (case NtCreateKeyedEvent env of
        None \<Rightarrow> (B_Throw, s)
      | Some wakeEvent \<Rightarrow> (B_InstallWakeEvent wakeEvent, s))"
| "Block_step env waitBlock sleep (B_InstallWakeEvent wakeEvent) s =
     (if m_wakeEvent s = 0 then (B_ReadFlags, s\<lparr>m_wakeEvent := wakeEvent\<rparr>)
      else (B_ReadFlags, s\<lparr>closed := wakeEvent # closed s\<rparr>))"
| "Block_step env waitBlock sleep B_ReadFlags s =
     (B_ClearSpinning (Flags (mem s waitBlock)), s)"
| "Block_step env waitBlock sleep (B_ClearSpinning flags) s =
     (case CompareExchange_Flags waitBlock (flags AND NOT WaiterSpinning) flags s of
        (old, s') \<Rightarrow>
          if old \<noteq> flags then (B_ReadFlags, s')
          else if flags AND WaiterSpinning \<noteq> 0 then (B_Wait, s')
          else (B_Return, s'))"
| "Block_step env waitBlock sleep B_Wait s =
     (B_Waiting, s\<lparr>kwaits := (kwaits s)(waitBlock := Suc (kwaits s waitBlock))\<rparr>)"
| "Block_step env waitBlock sleep B_Waiting s =
     (if NtWaitForKeyedEvent env \<noteq> 0 then (B_Throw, s)
      else if kwaits s waitBlock \<le> kreleases s waitBlock then (B_Return, s)
      else (B_Waiting, s))"
| "Block_step env waitBlock sleep B_Busy s =
     (if Flags (mem s waitBlock) AND WaiterSpinning = 0 then (B_Return, s) else (B_Busy, s))"
| "Block_step env waitBlock sleep B_Return s = (B_Return, s)"
| "Block_step env waitBlock sleep B_Throw s = (B_Throw, s)"

datatype unblock_pc =
    U_ReadFlags
  | U_ClearSpinning int32
  | U_Release
  | U_Releasing
  | U_Return

fun Unblock_step :: "addr \<Rightarrow> unblock_pc \<Rightarrow> state \<Rightarrow> unblock_pc \<times> state" where
  "Unblock_step waitBlock U_ReadFlags s =
     (U_ClearSpinning (Flags (mem s waitBlock)), s)"
| "Unblock_step waitBlock (U_ClearSpinning flags) s =
     (case CompareExchange_Flags waitBlock (flags AND NOT WaiterSpinning) flags s of
        (old, s') \<Rightarrow>
          if old \<noteq> flags then (U_ReadFlags, s')
          else if flags AND WaiterSpinning = 0 then (U_Release, s')
          else (U_Return, s'))"
| "Unblock_step waitBlock U_Release s =
     (U_Releasing, s\<lparr>kreleases := (kreleases s)(waitBlock := Suc (kreleases s waitBlock))\<rparr>)"
| "Unblock_step waitBlock U_Releasing s =
     (if kreleases s waitBlock \<le> kwaits s waitBlock then (U_Return, s) else (U_Releasing, s))"
| "Unblock_step waitBlock U_Return s = (U_Return, s)"


text \<open>\<open>Unblock\<close> run alone: its read, its \<open>CompareExchange\<close> and, when it makes it,
  its call of \<open>NtReleaseKeyedEvent\<close>.\<close>

definition Unblock :: "addr \<Rightarrow> state \<Rightarrow> state" where
  "Unblock waitBlock s = snd (run (Unblock_step waitBlock) [id, id, id] U_ReadFlags s)"

section \<open>Wake and WakeShared\<close>

text \<open>
  The loop of \<open>Wake\<close>, run under the list lock; it returns the \<open>wb\<close> it breaks
  with. The inner \<open>do ... while\<close> that clears the waiters bit retries only when another
  thread changes \<open>_value\<close> between its read and its \<open>CompareExchange\<close>; its effect is
  the one atomic update written here.
\<close>

partial_function (option) Wake_loop :: "addr \<Rightarrow> bool \<Rightarrow> state \<Rightarrow> (addr \<times> state) option" where
  "Wake_loop wakeList first s =
     (let wb = Flink (mem s (m_waitersListHead s)) in
      if wb = m_waitersListHead s then
        Some (wb, s\<lparr>m_value := m_value s AND NOT LockWaiters\<rparr>)
      else if first \<and> Flags (mem s wb) AND WaiterExclusive \<noteq> 0 then
        (case RemoveHeadList (m_waitersListHead s) (mem s) of
           (wb', h) \<Rightarrow> Some (wb', s\<lparr>mem := h\<rparr>))
      else if \<not> first \<and> Flags (mem s wb) AND WaiterExclusive \<noteq> 0 then
        Some (wb, s)
      else
        (case RemoveHeadList (m_waitersListHead s) (mem s) of
           (wb', h) \<Rightarrow> Wake_loop wakeList False (s\<lparr>mem := InsertTailList wakeList wb' h\<rparr>)))"

declare Wake_loop.simps [code]

text \<open>The traversal of the wake list that ends \<open>Wake\<close> and \<open>WakeShared\<close>.\<close>

partial_function (option) unblock_wake_list :: "addr \<Rightarrow> addr \<Rightarrow> state \<Rightarrow> state option" where
  "unblock_wake_list wakeList wb s =
     (if wb = wakeList then Some s
      else let flink = Flink (mem s wb) in unblock_wake_list wakeList flink (Unblock wb s))"

declare unblock_wake_list.simps [code]

text \<open>\<open>wakeList\<close> is the address of the local list head in the frame of \<open>Wake\<close>.
  \<open>_lock.Acquire()\<close> does not return while the lock is held.\<close>

definition Wake :: "addr \<Rightarrow> state \<Rightarrow> state option" where
  "Wake wakeList s =
     (if m_lock s then None
      else
        let s0 = s\<lparr>m_lock := True,
                   mem := (mem s)(wakeList := \<lparr>Flink = wakeList, Blink = wakeList, Flags = 0\<rparr>)\<rparr>
        in case Wake_loop wakeList True s0 of
             None \<Rightarrow> None
           | Some (wb, s1) \<Rightarrow>
               let s2 = (if Flags (mem s1 wb) AND WaiterExclusive = 0
                         then s1\<lparr>m_firstSharedWaiter := m_waitersListHead s1\<rparr> else s1);
                   s3 = s2\<lparr>m_lock := False\<rparr>
               in if Flags (mem s3 wb) AND WaiterExclusive \<noteq> 0 then Some (Unblock wb s3)
                  else unblock_wake_list wakeList (Flink (mem s3 wakeList)) s3)"

partial_function (option) WakeShared_loop :: "addr \<Rightarrow> addr \<Rightarrow> state \<Rightarrow> state option" where
  "WakeShared_loop wakeList wb s =
     (if wb = m_waitersListHead s then
        Some (s\<lparr>m_value := m_value s AND NOT LockWaiters\<rparr>)
      else
        let flink = Flink (mem s wb) in
        case RemoveEntryList wb (mem s) of
          (b, h) \<Rightarrow> WakeShared_loop wakeList flink (s\<lparr>mem := InsertTailList wakeList wb h\<rparr>))"

declare WakeShared_loop.simps [code]

definition WakeShared :: "addr \<Rightarrow> state \<Rightarrow> state option" where
  "WakeShared wakeList s =
     (if m_lock s then None
      else
        let s0 = s\<lparr>m_lock := True,
                   mem := (mem s)(wakeList := \<lparr>Flink = wakeList, Blink = wakeList, Flags = 0\<rparr>)\<rparr>
        in case WakeShared_loop wakeList (m_firstSharedWaiter s0) s0 of
             None \<Rightarrow> None
           | Some s1 \<Rightarrow>
               let s2 = s1\<lparr>m_firstSharedWaiter := m_waitersListHead s1\<rparr>;
                   s3 = s2\<lparr>m_lock := False\<rparr>
               in unblock_wake_list wakeList (Flink (mem s3 wakeList)) s3)"

section \<open>AcquireExclusive, AcquireShared\<close>

text \<open>
  The program counter of the two acquire loops: the top of \<open>while (true)\<close> with the
  local \<open>i\<close>; the \<open>CompareExchange\<close> of the fast path with the new value and the
  value read; \<open>_lock.Acquire()\<close>; the \<open>CompareExchange\<close> of the waiters bit under the
  lock; the insertion and \<open>_lock.Release()\<close>; \<open>Block\<close>.
\<close>

datatype acquire_pc =
    A_Loop int32
  | A_CompareExchange int32 int32 int32
  | A_LockAcquire int32 int32
  | A_SetWaiters int32 int32
  | A_Insert int32
  | A_Block int32 block_pc
  | A_Return
  | A_Throw

fun AcquireExclusive_step :: "os \<Rightarrow> addr \<Rightarrow> bool \<Rightarrow> acquire_pc \<Rightarrow> state \<Rightarrow> acquire_pc \<times> state" where
  "AcquireExclusive_step env waitBlock sleep (A_Loop i) s =
     (let v = m_value s in
      if v AND LockOwned = 0 then (A_CompareExchange i (v + LockOwned) v, s)
      else if word_sle (m_spinCount s) i
      then (A_LockAcquire i v, set_Flags waitBlock (WaiterExclusive OR WaiterSpinning) s)
      else (A_Loop (i + 1), s))"
| "AcquireExclusive_step env waitBlock sleep (A_CompareExchange i new v) s =
     (case CompareExchange_value new v s of
        (old, s') \<Rightarrow> if old = v then (A_Return, s') else (A_Loop (i + 1), s'))"
| "AcquireExclusive_step env waitBlock sleep (A_LockAcquire i v) s =
     (if m_lock s then (A_LockAcquire i v, s) else (A_SetWaiters i v, s\<lparr>m_lock := True\<rparr>))"
| "AcquireExclusive_step env waitBlock sleep (A_SetWaiters i v) s =
     (case CompareExchange_value (v OR LockWaiters) v s of
        (old, s') \<Rightarrow>
          if old \<noteq> v then (A_Loop i, s'\<lparr>m_lock := False\<rparr>)
          else (A_Insert i, s'))"
| "AcquireExclusive_step env waitBlock sleep (A_Insert i) s =
     (A_Block i (B_Spin 0), (AcquireExclusive_insert waitBlock s)\<lparr>m_lock := False\<rparr>)"
| "AcquireExclusive_step env waitBlock sleep (A_Block i b) s =
     (case Block_step env waitBlock sleep b s of
        (B_Return, s') \<Rightarrow> (A_Loop i, s')
      | (B_Throw, s') \<Rightarrow> (A_Throw, s')
      | (b', s') \<Rightarrow> (A_Block i b', s'))"
| "AcquireExclusive_step env waitBlock sleep A_Return s = (A_Return, s)"
| "AcquireExclusive_step env waitBlock sleep A_Throw s = (A_Throw, s)"

fun AcquireShared_step :: "os \<Rightarrow> addr \<Rightarrow> bool \<Rightarrow> acquire_pc \<Rightarrow> state \<Rightarrow> acquire_pc \<times> state" where
  "AcquireShared_step env waitBlock sleep (A_Loop i) s =
     (let v = m_value s in
      if v AND LockOwned = 0 \<or>
         (v AND LockWaiters = 0 \<and>
          signed_drop_bit LockSharedOwnersShift v AND LockSharedOwnersMask \<noteq> 0)
      then
        (if v AND LockOwned = 0
         then (A_CompareExchange i (v + LockOwned + LockSharedOwnersIncrement) v, s)
         else (A_CompareExchange i (v + LockSharedOwnersIncrement) v, s))
      else if word_sle (m_spinCount s) i
      then (A_LockAcquire i v, set_Flags waitBlock WaiterSpinning s)
      else (A_Loop (i + 1), s))"
| "AcquireShared_step env waitBlock sleep (A_CompareExchange i new v) s =
     (case CompareExchange_value new v s of
        (old, s') \<Rightarrow> if old = v then (A_Return, s') else (A_Loop (i + 1), s'))"
| "AcquireShared_step env waitBlock sleep (A_LockAcquire i v) s =
     (if m_lock s then (A_LockAcquire i v, s) else (A_SetWaiters i v, s\<lparr>m_lock := True\<rparr>))"
| "AcquireShared_step env waitBlock sleep (A_SetWaiters i v) s =
     (case CompareExchange_value (v OR LockWaiters) v s of
        (old, s') \<Rightarrow>
          if old \<noteq> v then (A_Loop i, s'\<lparr>m_lock := False\<rparr>)
          else (A_Insert i, s'))"
| "AcquireShared_step env waitBlock sleep (A_Insert i) s =
     (A_Block i (B_Spin 0), (AcquireShared_insert waitBlock s)\<lparr>m_lock := False\<rparr>)"
| "AcquireShared_step env waitBlock sleep (A_Block i b) s =
     (case Block_step env waitBlock sleep b s of
        (B_Return, s') \<Rightarrow> (A_Loop i, s')
      | (B_Throw, s') \<Rightarrow> (A_Throw, s')
      | (b', s') \<Rightarrow> (A_Block i b', s'))"
| "AcquireShared_step env waitBlock sleep A_Return s = (A_Return, s)"
| "AcquireShared_step env waitBlock sleep A_Throw s = (A_Throw, s)"

section \<open>ReleaseExclusive, ReleaseShared\<close>

datatype release_pc = R_Read | R_CompareExchange int32 int32 | R_Wake | R_Return

fun ReleaseExclusive_step :: "addr \<Rightarrow> release_pc \<Rightarrow> state \<Rightarrow> release_pc \<times> state" where
  "ReleaseExclusive_step wakeList R_Read s =
     (let v = m_value s in (R_CompareExchange (v - LockOwned) v, s))"
| "ReleaseExclusive_step wakeList (R_CompareExchange new v) s =
     (case CompareExchange_value new v s of
        (old, s') \<Rightarrow>
          if old = v then (if v AND LockWaiters \<noteq> 0 then (R_Wake, s') else (R_Return, s'))
          else (R_Read, s'))"
| "ReleaseExclusive_step wakeList R_Wake s =
     (case Wake wakeList s of None \<Rightarrow> (R_Wake, s) | Some s' \<Rightarrow> (R_Return, s'))"
| "ReleaseExclusive_step wakeList R_Return s = (R_Return, s)"

fun ReleaseShared_step :: "addr \<Rightarrow> release_pc \<Rightarrow> state \<Rightarrow> release_pc \<times> state" where
  "ReleaseShared_step wakeList R_Read s =
     (let v = m_value s;
          newValue =
            (if signed_drop_bit LockSharedOwnersShift v AND LockSharedOwnersMask \<noteq> 1
             then v - LockSharedOwnersIncrement
             else v - LockOwned - LockSharedOwnersIncrement)
      in (R_CompareExchange newValue v, s))"
| "ReleaseShared_step wakeList (R_CompareExchange new v) s =
     (case CompareExchange_value new v s of
        (old, s') \<Rightarrow>
          if old = v then (if v AND LockWaiters \<noteq> 0 then (R_Wake, s') else (R_Return, s'))
          else (R_Read, s'))"
| "ReleaseShared_step wakeList R_Wake s =
     (case Wake wakeList s of None \<Rightarrow> (R_Wake, s) | Some s' \<Rightarrow> (R_Return, s'))"
| "ReleaseShared_step wakeList R_Return s = (R_Return, s)"

section \<open>ConvertExclusiveToShared, ConvertSharedToExclusive\<close>

text \<open>For \<open>ConvertExclusiveToShared\<close> the wake routine called at \<open>R_Wake\<close> is
  \<open>WakeShared\<close>.\<close>

fun ConvertExclusiveToShared_step :: "addr \<Rightarrow> release_pc \<Rightarrow> state \<Rightarrow> release_pc \<times> state" where
  "ConvertExclusiveToShared_step wakeList R_Read s =
     (let v = m_value s in (R_CompareExchange (v + LockSharedOwnersIncrement) v, s))"
| "ConvertExclusiveToShared_step wakeList (R_CompareExchange new v) s =
     (case CompareExchange_value new v s of
        (old, s') \<Rightarrow>
          if old = v then (if v AND LockWaiters \<noteq> 0 then (R_Wake, s') else (R_Return, s'))
          else (R_Read, s'))"
| "ConvertExclusiveToShared_step wakeList R_Wake s =
     (case WakeShared wakeList s of None \<Rightarrow> (R_Wake, s) | Some s' \<Rightarrow> (R_Return, s'))"
| "ConvertExclusiveToShared_step wakeList R_Return s = (R_Return, s)"

fun ConvertSharedToExclusive_step :: "os \<Rightarrow> addr \<Rightarrow> bool \<Rightarrow> acquire_pc \<Rightarrow> state \<Rightarrow> acquire_pc \<times> state" where
  "ConvertSharedToExclusive_step env waitBlock sleep (A_Loop i) s =
     (let v = m_value s in
      if signed_drop_bit LockSharedOwnersShift v AND LockSharedOwnersMask = 1
      then (A_CompareExchange i (v - LockSharedOwnersIncrement) v, s)
      else if word_sle (m_spinCount s) i
      then (A_LockAcquire i v, set_Flags waitBlock (WaiterExclusive OR WaiterSpinning) s)
      else (A_Loop (i + 1), s))"
| "ConvertSharedToExclusive_step env waitBlock sleep (A_CompareExchange i new v) s =
     (case CompareExchange_value new v s of
        (old, s') \<Rightarrow> if old = v then (A_Return, s') else (A_Loop (i + 1), s'))"
| "ConvertSharedToExclusive_step env waitBlock sleep (A_LockAcquire i v) s =
     (if m_lock s then (A_LockAcquire i v, s) else (A_SetWaiters i v, s\<lparr>m_lock := True\<rparr>))"
| "ConvertSharedToExclusive_step env waitBlock sleep (A_SetWaiters i v) s =
     (case CompareExchange_value (v OR LockWaiters) v s of
        (old, s') \<Rightarrow>
          if old \<noteq> v then (A_Loop i, s'\<lparr>m_lock := False\<rparr>)
          else (A_Insert i, s'))"
| "ConvertSharedToExclusive_step env waitBlock sleep (A_Insert i) s =
     (A_Block i (B_Spin 0), (ConvertSharedToExclusive_insert waitBlock s)\<lparr>m_lock := False\<rparr>)"
| "ConvertSharedToExclusive_step env waitBlock sleep (A_Block i b) s =
     (case Block_step env waitBlock sleep b s of
        (B_Return, s') \<Rightarrow> (A_Loop i, s')
      | (B_Throw, s') \<Rightarrow> (A_Throw, s')
      | (b', s') \<Rightarrow> (A_Block i b', s'))"
| "ConvertSharedToExclusive_step env waitBlock sleep A_Return s = (A_Return, s)"
| "ConvertSharedToExclusive_step env waitBlock sleep A_Throw s = (A_Throw, s)"

section \<open>Executions and example states\<close>

text \<open>The program counters a thread passes through in an execution, one per step,
  and what the other threads alone do to the state.\<close>

fun pcs :: "('pc \<Rightarrow> state \<Rightarrow> 'pc \<times> state) \<Rightarrow> (state \<Rightarrow> state) list \<Rightarrow> 'pc \<Rightarrow> state
    \<Rightarrow> 'pc list" where
  "pcs stp [] pc s = [pc]"
| "pcs stp (e # es) pc s = pc # (case stp pc (e s) of (pc', s') \<Rightarrow> pcs stp es pc' s')"

definition others :: "(state \<Rightarrow> state) list \<Rightarrow> state \<Rightarrow> state" where
  "others es s = fold (\<lambda>e t. e t) es s"

fun is_CompareExchange :: "try_pc \<Rightarrow> bool" where
  "is_CompareExchange (Try_CompareExchange new v) = True"
| "is_CompareExchange pc = False"

text \<open>A store of zeroed blocks, and a lock constructed on it with its sentinel at
  address 100, on a machine with two processors.\<close>

definition zero_mem :: "addr \<Rightarrow> WaitBlock" where
  "zero_mem = (\<lambda>a. \<lparr>Flink = 0, Blink = 0, Flags = 0\<rparr>)"

definition example_lock :: "int32 \<Rightarrow> int32 \<Rightarrow> state" where
  "example_lock spinCount v = (FairResourceLock_new spinCount 2 100 zero_mem)\<lparr>m_value := v\<rparr>"

definition example_os :: os where
  "example_os = \<lparr>NtCreateKeyedEvent = Some 7, NtWaitForKeyedEvent = 0\<rparr>"

definition set_value :: "int32 \<Rightarrow> state \<Rightarrow> state" where
  "set_value v s = s\<lparr>m_value := v\<rparr>"

text \<open>The example lock held exclusively with one exclusive waiter, block 10, enqueued.\<close>

definition example_waiting :: state where
  "example_waiting = AcquireExclusive_enqueue 10 (example_lock 0 3)"

section \<open>KProcessHacker: MmCopyVirtualMemory\<close>

text \<open>
  \<open>NTSTATUS\<close> and \<open>ULONG\<close> are 32-bit; processes and addresses are pointers, which
  \<open>MmCopyVirtualMemory\<close> only compares and passes on. The two status codes have the
  values of \<open>ntstatus.h\<close>.
\<close>

type_synonym NTSTATUS = "32 word"
type_synonym ULONG = "32 word"

definition STATUS_SUCCESS :: NTSTATUS where
  "STATUS_SUCCESS = 0"

definition STATUS_PROCESS_IS_TERMINATING :: NTSTATUS where
  "STATUS_PROCESS_IS_TERMINATING = 0xC000010A"

record copy_args =
  FromProcess :: nat
  FromAddress :: nat
  ToProcess :: nat
  ToAddress :: nat
  BufferLength :: ULONG
  AccessMode :: nat
  ReturnLength :: nat

text \<open>
  What \<open>MmCopyVirtualMemory\<close> calls, over a kernel state \<open>'k\<close> that holds all
  memory, \<open>*ReturnLength\<close> included. \<open>MM_POOL_COPY_THRESHOLD\<close> is a macro of
  \<open>include/mm.h\<close> and the two rundown functions are declared in \<open>include/kph.h\<close>,
  neither of which is among the sources, so they are parameters, as is the current process.
  \<open>MiDoMappedCopy\<close> and \<open>MiDoPoolCopy\<close> are parameters as well: their bodies
  consist of calls of kernel services (attach, probe, lock and map pages, structured
  exceptions), and \<open>MmCopyVirtualMemory\<close> does nothing with them but call one and
  return its status.
\<close>

record 'k kernel_services =
  MM_POOL_COPY_THRESHOLD :: ULONG
  PsGetCurrentProcess :: "'k \<Rightarrow> nat"
  KphAcquireProcessRundownProtection :: "nat \<Rightarrow> 'k \<Rightarrow> bool \<times> 'k"
  KphReleaseProcessRundownProtection :: "nat \<Rightarrow> 'k \<Rightarrow> 'k"
  MiDoMappedCopy :: "copy_args \<Rightarrow> 'k \<Rightarrow> NTSTATUS \<times> 'k"
  MiDoPoolCopy :: "copy_args \<Rightarrow> 'k \<Rightarrow> NTSTATUS \<times> 'k"

datatype call =
    Call_KphAcquireProcessRundownProtection nat
  | Call_KphReleaseProcessRundownProtection nat
  | Call_MiDoMappedCopy copy_args
  | Call_MiDoPoolCopy copy_args

text \<open>The function returns its status, the calls it made, in order, and the kernel
  state it leaves.\<close>

definition MmCopyVirtualMemory ::
    "'k kernel_services \<Rightarrow> copy_args \<Rightarrow> 'k \<Rightarrow> NTSTATUS \<times> call list \<times> 'k" where
  "MmCopyVirtualMemory ks a k =
     (if BufferLength a = 0 then (STATUS_SUCCESS, [], k)
      else
        let processToLock =
              (if FromProcess a = PsGetCurrentProcess ks k then ToProcess a else FromProcess a)
        in case KphAcquireProcessRundownProtection ks processToLock k of
             (False, k1) \<Rightarrow>
               (STATUS_PROCESS_IS_TERMINATING,
                [Call_KphAcquireProcessRundownProtection processToLock], k1)
           | (True, k1) \<Rightarrow>
               if MM_POOL_COPY_THRESHOLD ks < BufferLength a then
                 (case MiDoMappedCopy ks a k1 of
                    (status, k2) \<Rightarrow>
                      (status,
                       [Call_KphAcquireProcessRundownProtection processToLock,
                        Call_MiDoMappedCopy a,
                        Call_KphReleaseProcessRundownProtection processToLock],
                       KphReleaseProcessRundownProtection ks processToLock k2))
               else
                 (case MiDoPoolCopy ks a k1 of
                    (status, k2) \<Rightarrow>
                      (status,
                       [Call_KphAcquireProcessRundownProtection processToLock,
                        Call_MiDoPoolCopy a,
                        Call_KphReleaseProcessRundownProtection processToLock],
                       KphReleaseProcessRundownProtection ks processToLock k2)))"

text \<open>
  An example kernel: its state is the set of terminating processes and the value of
  \<open>*ReturnLength\<close>; process 1 is current, the threshold is 511 bytes, rundown
  protection is refused for a terminating process, and each copy routine reports
  success and stores the length.
\<close>

definition example_services :: "(nat set \<times> ULONG) kernel_services" where
  "example_services =
     \<lparr>MM_POOL_COPY_THRESHOLD = 511,
      PsGetCurrentProcess = (\<lambda>k. 1),
      KphAcquireProcessRundownProtection = (\<lambda>p k. (p \<notin> fst k, k)),
      KphReleaseProcessRundownProtection = (\<lambda>p k. k),
      MiDoMappedCopy = (\<lambda>a k. (STATUS_SUCCESS, (fst k, BufferLength a))),
      MiDoPoolCopy = (\<lambda>a k. (STATUS_SUCCESS, (fst k, BufferLength a)))\<rparr>"

definition example_copy :: "ULONG \<Rightarrow> copy_args" where
  "example_copy n =
     \<lparr>FromProcess = 2, FromAddress = 4096, ToProcess = 1, ToAddress = 8192,
      BufferLength = n, AccessMode = 0, ReturnLength = 12288\<rparr>"

section \<open>One wait block, its owner and its waker\<close>

text \<open>
  The owner of wait block \<open>waitBlock\<close> runs \<open>Block\<close> with \<open>sleep = true\<close> while one
  waker runs \<open>Unblock\<close> on it, interleaved step by step by a schedule: \<open>True\<close> lets
  the owner take its next step, \<open>False\<close> the waker.
\<close>

type_synonym rendezvous = "block_pc \<times> unblock_pc \<times> state"

fun rendezvous_step :: "os \<Rightarrow> addr \<Rightarrow> bool \<Rightarrow> rendezvous \<Rightarrow> rendezvous" where
  "rendezvous_step env waitBlock True (b, u, s) =
     (case Block_step env waitBlock True b s of (b', s') \<Rightarrow> (b', u, s'))"
| "rendezvous_step env waitBlock False (b, u, s) =
     (case Unblock_step waitBlock u s of (u', s') \<Rightarrow> (b, u', s'))"

definition rendezvous_run :: "os \<Rightarrow> addr \<Rightarrow> bool list \<Rightarrow> state \<Rightarrow> rendezvous" where
  "rendezvous_run env waitBlock schedule s =
     fold (rendezvous_step env waitBlock) schedule (B_Spin 0, U_ReadFlags, s)"

text \<open>Where the two threads can be relative to each other: before their atomic
  clear, or after it in the order in which the two clears happened.\<close>

fun owner_before :: "block_pc \<Rightarrow> bool" where
  "owner_before (B_Spin j) = True"
| "owner_before B_Sleep = True"
| "owner_before B_CreateWakeEvent = True"
| "owner_before (B_InstallWakeEvent h) = True"
| "owner_before B_ReadFlags = True"
| "owner_before (B_ClearSpinning flags) = True"
| "owner_before B_Throw = True"
| "owner_before b = False"

fun waker_before :: "unblock_pc \<Rightarrow> bool" where
  "waker_before U_ReadFlags = True"
| "waker_before (U_ClearSpinning flags) = True"
| "waker_before u = False"

definition owner_first :: "block_pc \<Rightarrow> nat \<Rightarrow> bool" where
  "owner_first b kw = ((b = B_Wait \<and> kw = 0) \<or> ((b = B_Waiting \<or> b = B_Return \<or> b = B_Throw) \<and> kw = 1))"

definition waker_second :: "unblock_pc \<Rightarrow> nat \<Rightarrow> bool" where
  "waker_second u kr = ((waker_before u \<and> kr = 0) \<or> (u = U_Release \<and> kr = 0) \<or>
     ((u = U_Releasing \<or> u = U_Return) \<and> kr = 1))"

definition rendezvous_inv :: "addr \<Rightarrow> rendezvous \<Rightarrow> bool" where
  "rendezvous_inv waitBlock c =
     (case c of (b, u, s) \<Rightarrow>
        let spinning = (Flags (mem s waitBlock) AND WaiterSpinning \<noteq> 0);
            kw = kwaits s waitBlock;
            kr = kreleases s waitBlock
        in (owner_before b \<and> waker_before u \<and> spinning \<and> kw = 0 \<and> kr = 0) \<or>
           ((owner_before b \<or> b = B_Return) \<and> u = U_Return \<and> \<not> spinning \<and> kw = 0 \<and> kr = 0) \<or>
           (owner_first b kw \<and> waker_second u kr \<and> \<not> spinning \<and> (b = B_Return \<longrightarrow> kr = 1)))"

text \<open>Two schedules: the owner runs until it is inside \<open>NtWaitForKeyedEvent\<close>, then
  the waker runs \<open>Unblock\<close>, then the owner returns; and the waker runs \<open>Unblock\<close>
  to its end before the owner starts.\<close>

definition owner_then_waker :: "bool list" where
  "owner_then_waker =
     [True, True, True, True, True, True, True, False, False, False, False, True]"

definition waker_then_owner :: "bool list" where
  "waker_then_owner = [False, False, True, True, True, True, True, True]"

section \<open>The waiters list as a sequence\<close>

text \<open>
  \<open>links h p xs\<close>: starting at \<open>p\<close>, the blocks \<open>xs\<close> follow one another by
  \<open>Flink\<close>, and each points back by \<open>Blink\<close>. \<open>dlist h head xs\<close>: the circular list
  with sentinel \<open>head\<close> holds exactly the blocks \<open>xs\<close>, in this order.
\<close>

fun links :: "(addr \<Rightarrow> WaitBlock) \<Rightarrow> addr \<Rightarrow> addr list \<Rightarrow> bool" where
  "links h p [] = True"
| "links h p (x # xs) = (Flink (h p) = x \<and> Blink (h x) = p \<and> links h x xs)"

definition dlist :: "(addr \<Rightarrow> WaitBlock) \<Rightarrow> addr \<Rightarrow> addr list \<Rightarrow> bool" where
  "dlist h head xs =
     (distinct (head # xs) \<and> links h head xs \<and>
      Flink (h (last (head # xs))) = head \<and> Blink (h head) = last (head # xs))"

definition exclusive :: "state \<Rightarrow> addr \<Rightarrow> bool" where
  "exclusive s a = (Flags (mem s a) AND WaiterExclusive \<noteq> 0)"

definition shared :: "state \<Rightarrow> addr \<Rightarrow> bool" where
  "shared s a = (Flags (mem s a) AND WaiterExclusive = 0)"

text \<open>
  The state of the list that the operations rely on and maintain: the list is well
  formed, its exclusive blocks come before its shared ones, \<open>_firstSharedWaiter\<close> is
  the first shared block or the sentinel if there is none, and the sentinel's own flags
  do not have the exclusive bit.
\<close>

definition waiters_ok :: "state \<Rightarrow> addr list \<Rightarrow> bool" where
  "waiters_ok s xs =
     (dlist (mem s) (m_waitersListHead s) xs \<and>
      xs = filter (exclusive s) xs @ filter (shared s) xs \<and>
      m_firstSharedWaiter s = hd (filter (shared s) xs @ [m_waitersListHead s]) \<and>
      shared s (m_waitersListHead s))"

text \<open>What \<open>Wake\<close> leaves of a list: nothing of an empty one; the tail when the head
  is exclusive; otherwise what follows the shared blocks at the head.\<close>

definition Wake_rest :: "state \<Rightarrow> addr list \<Rightarrow> addr list" where
  "Wake_rest s xs =
     (case xs of
        [] \<Rightarrow> []
      | a # as \<Rightarrow> if exclusive s a then as else dropWhile (shared s) xs)"

definition Wake_clears :: "state \<Rightarrow> addr list \<Rightarrow> bool" where
  "Wake_clears s xs =
     (case xs of
        [] \<Rightarrow> True
      | a # as \<Rightarrow> shared s a \<and> dropWhile (shared s) xs = [])"

text \<open>
  The states of a lock that its operations reach from the constructor: the three
  insertions, each with a wait block that is not in the list, the two wakes, each with
  its local list head outside the list, the clearing of a spinning flag by \<open>Block\<close> or
  \<open>Unblock\<close>, any change of the state word, and any write to memory outside the list
  (the frames of other calls).
\<close>

inductive reachable :: "state \<Rightarrow> bool" where
  new: "Flags (h sentinel) AND WaiterExclusive = 0 \<Longrightarrow>
        reachable (FairResourceLock_new spinCount processorCount sentinel h)"
| acquire_exclusive:
    "reachable s \<Longrightarrow> dlist (mem s) (m_waitersListHead s) xs \<Longrightarrow>
     w \<notin> set (m_waitersListHead s # xs) \<Longrightarrow> reachable (AcquireExclusive_enqueue w s)"
| acquire_shared:
    "reachable s \<Longrightarrow> dlist (mem s) (m_waitersListHead s) xs \<Longrightarrow>
     w \<notin> set (m_waitersListHead s # xs) \<Longrightarrow> reachable (AcquireShared_enqueue w s)"
| convert_shared_to_exclusive:
    "reachable s \<Longrightarrow> dlist (mem s) (m_waitersListHead s) xs \<Longrightarrow>
     w \<notin> set (m_waitersListHead s # xs) \<Longrightarrow> reachable (ConvertSharedToExclusive_enqueue w s)"
| wake:
    "reachable s \<Longrightarrow> dlist (mem s) (m_waitersListHead s) xs \<Longrightarrow>
     wakeList \<notin> set (m_waitersListHead s # xs) \<Longrightarrow> Wake wakeList s = Some s' \<Longrightarrow>
     reachable s'"
| wake_shared:
    "reachable s \<Longrightarrow> dlist (mem s) (m_waitersListHead s) xs \<Longrightarrow>
     wakeList \<notin> set (m_waitersListHead s # xs) \<Longrightarrow> WakeShared wakeList s = Some s' \<Longrightarrow>
     reachable s'"
| clear_spinning:
    "reachable s \<Longrightarrow>
     reachable (set_Flags a (Flags (mem s a) AND NOT WaiterSpinning) s)"
| state_word:
    "reachable s \<Longrightarrow> reachable (s\<lparr>m_value := v\<rparr>)"
| other_memory:
    "reachable s \<Longrightarrow> dlist (mem s) (m_waitersListHead s) xs \<Longrightarrow>
     a \<notin> set (m_waitersListHead s # xs) \<Longrightarrow> reachable (s\<lparr>mem := (mem s)(a := b)\<rparr>)"

text \<open>
  The example lock with one shared waiter, block 11, enqueued; the example lock held
  exclusively with an exclusive waiter, block 10, and a shared waiter, block 11; and
  the latter as \<open>ConvertExclusiveToShared\<close> has it when it calls \<open>WakeShared\<close>,
  with one shared owner added to the state word.
\<close>

definition example_shared_waiting :: state where
  "example_shared_waiting = AcquireShared_enqueue 11 (example_lock 0 3)"

definition example_two_waiting :: state where
  "example_two_waiting =
     AcquireShared_enqueue 11 (AcquireExclusive_enqueue 10 (example_lock 0 3))"

definition example_converted :: state where
  "example_converted = set_value 7 example_two_waiting"

text \<open>A lock constructed on memory in which the word that becomes the sentinel's
  \<open>Flags\<close> happens to hold 1, with one shared waiter, block 11, enqueued.\<close>

definition example_dirty_sentinel :: state where
  "example_dirty_sentinel =
     AcquireShared_enqueue 11
       ((FairResourceLock_new 0 2 100
           (zero_mem(100 := \<lparr>Flink = 0, Blink = 0, Flags = 1\<rparr>)))\<lparr>m_value := 3\<rparr>)"

section \<open>The fields of the state word\<close>

lemma SharedOwners_drop_bit: "SharedOwners v = drop_bit 2 v"
proof -
  have m: "(0x3fffffff :: int32) = mask 30" by (simp add: mask_eq_exp_minus_1)
  show ?thesis
    unfolding SharedOwners_def LockSharedOwnersShift_def LockSharedOwnersMask_def m
    by (rule bit_word_eqI) (auto simp add: bit_simps dest: bit_imp_le_length)
qed

lemma unat_SharedOwners: "unat (SharedOwners v) = unat v div 4"
  by (simp add: SharedOwners_drop_bit unat_drop_bit_eq drop_bit_eq_div unat_div)

lemma even_unat: "even (unat (v::int32)) = even v"
  by (metis even_of_nat mult.right_neutral unsigned_1 word_arith_nat_mult)

lemma Owned_odd: "Owned v = odd (unat v)"
  unfolding Owned_def LockOwned_def even_unat
  using and_exp_eq_0_iff_not_bit [of v 0] by (force simp: bit_0)

lemma Waiters_odd: "Waiters v = odd (unat v div 2)"
proof -
  have "Waiters v = bit v 1"
    unfolding Waiters_def LockWaiters_def
    using and_exp_eq_0_iff_not_bit [of v 1] by force
  also have "\<dots> = odd (v div 2)"
    by (simp add: bit_iff_odd_drop_bit drop_bit_eq_div)
  also have "\<dots> = odd (unat v div 2)"
    using even_unat [of "v div 2"] by (simp add: unat_div)
  finally show ?thesis .
qed

lemma unat_sub4: "4 \<le> unat (v :: int32) \<Longrightarrow> unat (v - 4) = unat v - 4"
  by (simp add: unat_sub word_le_nat_alt)

lemma unat_sub5: "5 \<le> unat (v :: int32) \<Longrightarrow> unat (v - 5) = unat v - 5"
  by (simp add: unat_sub word_le_nat_alt)

lemma release_shared_many:
  assumes "1 < unat (SharedOwners v)"
  shows "unat (SharedOwners (v - LockSharedOwnersIncrement)) = unat (SharedOwners v) - 1"
    and "Owned (v - LockSharedOwnersIncrement) = Owned v"
    and "Waiters (v - LockSharedOwnersIncrement) = Waiters v"
proof -
  from assms have "8 \<le> unat v" by (simp add: unat_SharedOwners)
  then have u: "unat (v - 4) = unat v - 4" and "4 \<le> unat v" by (simp_all add: unat_sub4)
  then show "unat (SharedOwners (v - LockSharedOwnersIncrement)) = unat (SharedOwners v) - 1"
    "Owned (v - LockSharedOwnersIncrement) = Owned v"
    "Waiters (v - LockSharedOwnersIncrement) = Waiters v"
    unfolding LockSharedOwnersIncrement_def unat_SharedOwners Owned_odd Waiters_odd u
    by presburger+
qed

lemma release_shared_last:
  assumes "unat (SharedOwners v) = 1" "Owned v"
  shows "unat (SharedOwners (v - LockOwned - LockSharedOwnersIncrement)) = 0"
    and "\<not> Owned (v - LockOwned - LockSharedOwnersIncrement)"
    and "Waiters (v - LockOwned - LockSharedOwnersIncrement) = Waiters v"
proof -
  have e: "v - LockOwned - LockSharedOwnersIncrement = v - 5"
    by (simp add: LockOwned_def LockSharedOwnersIncrement_def)
  from assms have *: "5 \<le> unat v" "unat v div 4 = 1" "odd (unat v)"
    unfolding unat_SharedOwners Owned_odd by presburger+
  then have u: "unat (v - 5) = unat v - 5" by (simp only: unat_sub5)
  from * show "unat (SharedOwners (v - LockOwned - LockSharedOwnersIncrement)) = 0"
    and "\<not> Owned (v - LockOwned - LockSharedOwnersIncrement)"
    and "Waiters (v - LockOwned - LockSharedOwnersIncrement) = Waiters v"
    unfolding e unat_SharedOwners Owned_odd Waiters_odd u
    by presburger+
qed

lemma SharedOwners_test: "(signed_drop_bit LockSharedOwnersShift v AND LockSharedOwnersMask \<noteq> 1)
    = (unat (SharedOwners v) \<noteq> 1)"
  unfolding SharedOwners_def [symmetric]
  using word_unat_eq_iff [of "SharedOwners v" 1] by simp


section \<open>The steps of the release and of the shared acquire\<close>

lemma Waiters_test: "(v AND LockWaiters \<noteq> 0) = Waiters v"
  by (simp add: Waiters_def)

lemma Owned_test: "(v AND LockOwned \<noteq> 0) = Owned v" "(v AND LockOwned = 0) = (\<not> Owned v)"
  by (simp_all add: Owned_def)

lemma ReleaseShared_calls_Wake_only_after_CAS:
  assumes "fst (ReleaseShared_step wl pc t) = R_Wake"
  shows "pc = R_Wake \<or> (\<exists>new v. pc = R_CompareExchange new v \<and> m_value t = v \<and> Waiters v)"
  using assms
  by (cases pc) (auto simp: CompareExchange_value_def Let_def Waiters_test split: if_splits option.splits)

lemma set_waiters_bit: "Waiters v \<Longrightarrow> v OR LockWaiters = v"
  unfolding Waiters_def LockWaiters_def
  by (rule bit_word_eqI)
    (auto simp add: bit_simps and_exp_eq_0_iff_not_bit [of v 1, simplified])

lemma AcquireShared_enqueues:
  assumes "Owned (m_value s)" and "Waiters (m_value s)"
    and "word_sle (m_spinCount s) i" and "\<not> m_lock s"
  shows "run (AcquireShared_step env waitBlock sleep) [id, id, id, id] (A_Loop i) s =
           (A_Block i (B_Spin 0), AcquireShared_enqueue waitBlock s)"
proof -
  have v: "m_value s OR LockWaiters = m_value s" using assms(2) by (rule set_waiters_bit)
  have l: "m_lock s = False" using assms(4) by simp
  show ?thesis
    using assms(1,2,3)
    by (simp add: Let_def Owned_test Waiters_def set_Flags_def CompareExchange_value_def v l
        AcquireShared_enqueue_def AcquireShared_insert_def)
qed

section \<open>The try operations\<close>

lemma run_Try_Return:
  "run TryAcquireExclusive_step es (Try_Return b) s = (Try_Return b, others es s)"
  "run TryAcquireShared_step es (Try_Return b) s = (Try_Return b, others es s)"
  by (induction es arbitrary: s) (simp_all add: others_def)

lemma pcs_Try_Return:
  "filter is_CompareExchange (pcs TryAcquireExclusive_step es (Try_Return b) s) = []"
  "filter is_CompareExchange (pcs TryAcquireShared_step es (Try_Return b) s) = []"
  by (induction es arbitrary: s) simp_all

lemma TryAcquireExclusive_run_false:
  assumes "run TryAcquireExclusive_step es Try_Read s = (Try_Return False, s')"
  shows "s' = others es s"
proof (cases es)
  case Nil
  with assms show ?thesis by simp
next
  case (Cons e1 es1)
  show ?thesis
  proof (cases "m_value (e1 s) AND LockOwned \<noteq> 0")
    case True
    with assms Cons show ?thesis
      by (simp add: Let_def run_Try_Return others_def)
  next
    case False
    show ?thesis
    proof (cases es1)
      case Nil
      with assms Cons False show ?thesis by (simp add: Let_def)
    next
      case (Cons e2 es2)
      with assms \<open>es = e1 # es1\<close> False show ?thesis
        by (auto simp add: Let_def run_Try_Return others_def CompareExchange_value_def
            split: if_splits)
    qed
  qed
qed

lemma TryAcquireShared_run_false:
  assumes "run TryAcquireShared_step es Try_Read s = (Try_Return False, s')"
  shows "s' = others es s"
proof (cases es)
  case Nil
  with assms show ?thesis by simp
next
  case (Cons e1 es1)
  show ?thesis
  proof (cases "fst (TryAcquireShared_step Try_Read (e1 s)) = Try_Return False")
    case True
    with assms Cons show ?thesis
      by (auto simp add: Let_def run_Try_Return others_def split: if_splits)
  next
    case False
    show ?thesis
    proof (cases es1)
      case Nil
      with assms Cons False show ?thesis by (auto simp add: Let_def split: if_splits)
    next
      case (Cons e2 es2)
      with assms \<open>es = e1 # es1\<close> False show ?thesis
        by (auto simp add: Let_def run_Try_Return others_def CompareExchange_value_def
            split: if_splits)
    qed
  qed
qed

lemma TryAcquireExclusive_one_CompareExchange:
  "length (filter is_CompareExchange (pcs TryAcquireExclusive_step es Try_Read s)) \<le> 1"
proof (cases es)
  case Nil
  then show ?thesis by simp
next
  case (Cons e1 es1)
  then show ?thesis
    by (cases es1) (auto simp add: Let_def pcs_Try_Return CompareExchange_value_def)
qed

lemma TryAcquireShared_one_CompareExchange:
  "length (filter is_CompareExchange (pcs TryAcquireShared_step es Try_Read s)) \<le> 1"
proof (cases es)
  case Nil
  then show ?thesis by simp
next
  case (Cons e1 es1)
  then show ?thesis
    by (cases es1) (auto simp add: Let_def pcs_Try_Return CompareExchange_value_def)
qed

text \<open>
  C9. In every execution, under any interference, in which \<open>TryAcquireExclusive\<close> or
  \<open>TryAcquireShared\<close> returns false, the final state is what the other threads
  alone made of the initial one: the call wrote nothing. Each passes through at most
  one \<open>CompareExchange\<close>. Both can return false although the lock is free when
  the \<open>CompareExchange\<close> runs: the word read was free with the waiters bit, and that
  bit was cleared in between.
\<close>

theorem try_acquire_false_writes_nothing:
  "(run TryAcquireExclusive_step es Try_Read s = (Try_Return False, s') \<longrightarrow> s' = others es s) \<and>
   (run TryAcquireShared_step es Try_Read s = (Try_Return False, s') \<longrightarrow> s' = others es s) \<and>
   length (filter is_CompareExchange (pcs TryAcquireExclusive_step es Try_Read s)) \<le> 1 \<and>
   length (filter is_CompareExchange (pcs TryAcquireShared_step es Try_Read s)) \<le> 1 \<and>
   (\<not> Owned (m_value (set_value 0 (example_lock 0 2))) \<and>
    fst (run TryAcquireExclusive_step [id, set_value 0] Try_Read (example_lock 0 2))
      = Try_Return False \<and>
    fst (run TryAcquireShared_step [id, set_value 0] Try_Read (example_lock 0 2))
      = Try_Return False)"
proof -
  have "\<not> Owned (m_value (set_value 0 (example_lock 0 2)))"
    by (simp add: set_value_def Owned_def)
  moreover have "(2 :: int32) AND 1 = 0"
    by (simp add: and_one_eq)
  then have
    "fst (run TryAcquireExclusive_step [id, set_value 0] Try_Read (example_lock 0 2))
      = Try_Return False"
    "fst (run TryAcquireShared_step [id, set_value 0] Try_Read (example_lock 0 2))
      = Try_Return False"
    by (simp_all add: example_lock_def set_value_def Let_def LockOwned_def
        CompareExchange_value_def)
  ultimately show ?thesis
    using TryAcquireExclusive_run_false TryAcquireShared_run_false
      TryAcquireExclusive_one_CompareExchange TryAcquireShared_one_CompareExchange
    by blast
qed

theorem try_acquire_false_writes_nothing_witness:
  "run TryAcquireExclusive_step [id, set_value 0] Try_Read (example_lock 0 2)
     = (Try_Return False, set_value 0 (example_lock 0 2)) \<and>
   run TryAcquireShared_step [id, set_value 0] Try_Read (example_lock 0 2)
     = (Try_Return False, set_value 0 (example_lock 0 2)) \<and>
   others [id, set_value 0] (example_lock 0 2) = set_value 0 (example_lock 0 2)"
proof -
  have a: "(2 :: int32) AND 1 = 0"
    by (simp add: and_one_eq)
  have o: "others [id, set_value 0] (example_lock 0 2) = set_value 0 (example_lock 0 2)"
    by (simp add: others_def)
  have x: "fst (run TryAcquireExclusive_step [id, set_value 0] Try_Read (example_lock 0 2))
      = Try_Return False"
    and y: "fst (run TryAcquireShared_step [id, set_value 0] Try_Read (example_lock 0 2))
      = Try_Return False"
    using a by (simp_all add: example_lock_def set_value_def Let_def LockOwned_def
        CompareExchange_value_def)
  from x y show ?thesis
    using try_acquire_false_writes_nothing
      [of "[id, set_value 0]" "example_lock 0 2"
        "snd (run TryAcquireExclusive_step [id, set_value 0] Try_Read (example_lock 0 2))"]
      try_acquire_false_writes_nothing
      [of "[id, set_value 0]" "example_lock 0 2"
        "snd (run TryAcquireShared_step [id, set_value 0] Try_Read (example_lock 0 2))"]
    unfolding o
    by (metis prod.collapse)
qed


section \<open>Block after the atomic clear\<close>

lemma clear_Spinning: "(flags AND NOT WaiterSpinning) AND WaiterSpinning = 0"
  by (simp add: and.assoc)

lemma Block_step_Wait_only_after_clear:
  assumes "fst (Block_step env waitBlock sleep pc s) = B_Wait"
  shows "\<exists>flags. pc = B_ClearSpinning flags \<and> Flags (mem s waitBlock) = flags \<and>
           flags AND WaiterSpinning \<noteq> 0"
  using assms
  by (cases pc) (auto simp: CompareExchange_Flags_def split: if_splits option.splits)

lemma Block_step_kwaits:
  assumes "pc \<noteq> B_Wait"
  shows "kwaits (snd (Block_step env waitBlock sleep pc s)) = kwaits s"
  using assms
  by (cases pc) (auto simp: CompareExchange_Flags_def split: if_splits option.splits)

text \<open>
  C1, as the code has it. When the \<open>CompareExchange\<close> of \<open>Block\<close> clears the
  spinning flag, \<open>Block\<close> goes on to call \<open>NtWaitForKeyedEvent\<close> exactly when the
  flags it replaced had the spinning flag set; when they had it clear it returns
  without parking. \<open>NtWaitForKeyedEvent\<close> is called from nowhere else, and no other
  step of \<open>Block\<close> counts as a call.
\<close>

theorem Block_parks_iff_spinning_observed:
  assumes "Flags (mem s waitBlock) = flags"
  shows "Block_step env waitBlock sleep (B_ClearSpinning flags) s =
           (if flags AND WaiterSpinning \<noteq> 0 then B_Wait else B_Return,
            set_Flags waitBlock (flags AND NOT WaiterSpinning) s) \<and>
         Block_step env waitBlock sleep B_Wait s =
           (B_Waiting, s\<lparr>kwaits := (kwaits s)(waitBlock := Suc (kwaits s waitBlock))\<rparr>) \<and>
         (\<forall>pc t. fst (Block_step env waitBlock sleep pc t) = B_Wait \<longrightarrow>
            (\<exists>f. pc = B_ClearSpinning f \<and> Flags (mem t waitBlock) = f \<and>
                 f AND WaiterSpinning \<noteq> 0)) \<and>
         (\<forall>pc t. pc \<noteq> B_Wait \<longrightarrow>
            kwaits (snd (Block_step env waitBlock sleep pc t)) = kwaits t)"
  using assms Block_step_Wait_only_after_clear Block_step_kwaits
  by (auto simp add: CompareExchange_Flags_def set_Flags_def)

lemma example_waiting_Flags: "Flags (mem example_waiting 10) = 3"
  by (simp add: example_waiting_def AcquireExclusive_enqueue_def AcquireExclusive_insert_def
      set_Flags_def example_lock_def FairResourceLock_new_def InsertTailList_def Let_def
      WaiterExclusive_def WaiterSpinning_def)

theorem Block_parks_iff_spinning_observed_witness:
  "Flags (mem example_waiting 10) = 3 \<and>
   Block_step example_os 10 True (B_ClearSpinning 3) example_waiting =
     (B_Wait, set_Flags 10 1 example_waiting) \<and>
   Flags (mem (Unblock 10 example_waiting) 10) = 1 \<and>
   Block_step example_os 10 True (B_ClearSpinning 1) (Unblock 10 example_waiting) =
     (B_Return, set_Flags 10 1 (Unblock 10 example_waiting))"
proof -
  have u: "Flags (mem (Unblock 10 example_waiting) 10) = 1"
    by (simp add: Unblock_def CompareExchange_Flags_def example_waiting_Flags WaiterSpinning_def)
  show ?thesis
    using Block_parks_iff_spinning_observed [OF example_waiting_Flags, of example_os True]
      Block_parks_iff_spinning_observed [OF u, of example_os True]
      example_waiting_Flags u
    by (simp add: WaiterSpinning_def)
qed


lemmas example_defs =
  example_waiting_def example_lock_def example_os_def FairResourceLock_new_def zero_mem_def
  AcquireExclusive_enqueue_def AcquireExclusive_insert_def set_Flags_def set_value_def
  InsertTailList_def InsertHeadList_def Unblock_def CompareExchange_Flags_def
  CompareExchange_value_def WaiterExclusive_def WaiterSpinning_def LockOwned_def
  LockWaiters_def LockSharedOwnersIncrement_def Let_def

text \<open>
  C1, as the specification has it, fails. The waker runs \<open>Unblock\<close> on block 10
  before its owner enters \<open>Block\<close>: the owner's \<open>CompareExchange\<close> replaces flags 1,
  spinning flag clear, and the owner returns; \<open>NtWaitForKeyedEvent\<close> has not been called.
\<close>

theorem Block_returns_without_parking:
  "pcs (Block_step example_os 10 True) [Unblock 10, id, id, id, id, id] (B_Spin 0) example_waiting
     = [B_Spin 0, B_Sleep, B_CreateWakeEvent, B_InstallWakeEvent 7, B_ReadFlags,
        B_ClearSpinning 1, B_Return] \<and>
   (1 :: int32) AND WaiterSpinning = 0 \<and>
   kwaits (snd (run (Block_step example_os 10 True) [Unblock 10, id, id, id, id, id]
                  (B_Spin 0) example_waiting)) 10 = 0"
  by (simp add: example_defs)


section \<open>The acquire loop after a failed update of the waiters bit\<close>

lemma AcquireExclusive_enters_slow_path:
  assumes "fst (AcquireExclusive_step env waitBlock sleep pc t) = A_LockAcquire i v"
  shows "pc = A_LockAcquire i v \<or> (pc = A_Loop i \<and> word_sle (m_spinCount t) i)"
  using assms
  by (cases pc)
    (auto simp: CompareExchange_value_def Let_def
      split: if_splits prod.splits block_pc.splits)

lemma AcquireShared_enters_slow_path:
  assumes "fst (AcquireShared_step env waitBlock sleep pc t) = A_LockAcquire i v"
  shows "pc = A_LockAcquire i v \<or> (pc = A_Loop i \<and> word_sle (m_spinCount t) i)"
  using assms
  by (cases pc)
    (auto simp: CompareExchange_value_def Let_def
      split: if_splits prod.splits block_pc.splits)

text \<open>
  C8, as the code has it. When the \<open>CompareExchange\<close> that sets the waiters bit finds
  another value, \<open>AcquireExclusive\<close> and \<open>AcquireShared\<close> store nothing, insert
  nothing, release the list lock and go back to the top of the loop with \<open>i\<close> as it
  was. The slow path is entered only with \<open>i >= _spinCount\<close>, and with such an \<open>i\<close>
  the next iteration that reads a word it cannot acquire goes straight to
  \<open>_lock.Acquire()\<close> again, without a spin.
\<close>

theorem waiters_CompareExchange_failure_restarts:
  assumes "m_value s \<noteq> v"
  shows "AcquireExclusive_step env waitBlock sleep (A_SetWaiters i v) s
           = (A_Loop i, s\<lparr>m_lock := False\<rparr>) \<and>
         AcquireShared_step env waitBlock sleep (A_SetWaiters i v) s
           = (A_Loop i, s\<lparr>m_lock := False\<rparr>) \<and>
         (\<forall>pc t w. fst (AcquireExclusive_step env waitBlock sleep pc t) = A_LockAcquire i w \<longrightarrow>
            pc = A_LockAcquire i w \<or> (pc = A_Loop i \<and> word_sle (m_spinCount t) i)) \<and>
         (\<forall>pc t w. fst (AcquireShared_step env waitBlock sleep pc t) = A_LockAcquire i w \<longrightarrow>
            pc = A_LockAcquire i w \<or> (pc = A_Loop i \<and> word_sle (m_spinCount t) i)) \<and>
         (\<forall>t. word_sle (m_spinCount t) i \<and> Owned (m_value t) \<longrightarrow>
            AcquireExclusive_step env waitBlock sleep (A_Loop i) t =
              (A_LockAcquire i (m_value t),
               set_Flags waitBlock (WaiterExclusive OR WaiterSpinning) t)) \<and>
         (\<forall>t. word_sle (m_spinCount t) i \<and> Owned (m_value t) \<and>
              (Waiters (m_value t) \<or> SharedOwners (m_value t) = 0) \<longrightarrow>
            AcquireShared_step env waitBlock sleep (A_Loop i) t =
              (A_LockAcquire i (m_value t), set_Flags waitBlock WaiterSpinning t))"
  using assms AcquireExclusive_enters_slow_path AcquireShared_enters_slow_path
  by (auto simp add: CompareExchange_value_def Let_def Owned_def Waiters_def SharedOwners_def)

theorem waiters_CompareExchange_failure_restarts_witness:
  "m_value (set_value 5 (example_lock 1 1)) \<noteq> 1 \<and>
   AcquireExclusive_step example_os 10 True (A_SetWaiters 1 1) (set_value 5 (example_lock 1 1))
     = (A_Loop 1, set_value 5 (example_lock 1 1)) \<and>
   AcquireShared_step example_os 10 True (A_SetWaiters 1 1) (set_value 5 (example_lock 1 1))
     = (A_Loop 1, set_value 5 (example_lock 1 1))"
proof -
  have h: "m_value (set_value 5 (example_lock 1 1)) \<noteq> 1"
    by (simp add: set_value_def)
  have l: "(set_value 5 (example_lock 1 1))\<lparr>m_lock := False\<rparr> = set_value 5 (example_lock 1 1)"
    by (simp add: set_value_def example_lock_def FairResourceLock_new_def)
  show ?thesis
    using waiters_CompareExchange_failure_restarts [OF h, of example_os 10 True 1] h
    by (simp add: l)
qed

text \<open>
  C8, as the specification has it, fails. With a spin count of 1 and the lock owned,
  \<open>AcquireExclusive\<close> spins once and enters the slow path; another thread changes
  the state word before the \<open>CompareExchange\<close> of the waiters bit. The loop restarts
  with \<open>i = 1\<close>, not 0, and although the lock is still owned it goes to
  \<open>_lock.Acquire()\<close> at once: the restarted attempt does not spin.
\<close>

theorem AcquireExclusive_retry_does_not_spin:
  "pcs (AcquireExclusive_step example_os 10 True) [id, id, id, set_value 5, id] (A_Loop 0)
       (example_lock 1 1)
     = [A_Loop 0, A_Loop 1, A_LockAcquire 1 1, A_SetWaiters 1 1, A_Loop 1, A_LockAcquire 1 5] \<and>
   m_spinCount (example_lock 1 1) = 1 \<and> Owned 5"
proof -
  have c: "\<not> word_sle (1::int32) 0" "word_sle (1::int32) 1"
    by (simp_all add: word_sle_eq)
  have a: "(1 :: int32) AND 1 = 1" "(5 :: int32) AND 1 = 1"
    by (simp_all add: and_one_eq)
  show ?thesis
    by (simp add: example_lock_def FairResourceLock_new_def set_value_def set_Flags_def
        CompareExchange_value_def Let_def LockOwned_def LockWaiters_def Owned_def c a)
qed


section \<open>The rendezvous of Block and Unblock\<close>

lemma Unblock_step_Release_only_after_clear:
  assumes "fst (Unblock_step waitBlock pc s) = U_Release"
  shows "\<exists>flags. pc = U_ClearSpinning flags \<and> Flags (mem s waitBlock) = flags \<and>
           flags AND WaiterSpinning = 0"
  using assms
  by (cases pc) (auto simp: CompareExchange_Flags_def split: if_splits)

lemma rendezvous_inv_owner_step:
  assumes "rendezvous_inv waitBlock (b, u, s)"
  shows "rendezvous_inv waitBlock (rendezvous_step env waitBlock True (b, u, s))"
  using assms
  by (cases b)
    (auto simp add: rendezvous_inv_def Let_def owner_first_def waker_second_def
      CompareExchange_Flags_def clear_Spinning split: if_splits option.splits)

lemma rendezvous_inv_waker_step:
  assumes "rendezvous_inv waitBlock (b, u, s)"
  shows "rendezvous_inv waitBlock (rendezvous_step env waitBlock False (b, u, s))"
  using assms
  by (cases u)
    (auto simp add: rendezvous_inv_def Let_def owner_first_def waker_second_def
      CompareExchange_Flags_def clear_Spinning split: if_splits)

lemma rendezvous_inv_step:
  assumes "rendezvous_inv waitBlock c"
  shows "rendezvous_inv waitBlock (rendezvous_step env waitBlock who c)"
  using assms rendezvous_inv_owner_step rendezvous_inv_waker_step
  by (cases c; cases who) auto

lemma rendezvous_inv_fold:
  assumes "rendezvous_inv waitBlock c"
  shows "rendezvous_inv waitBlock (fold (rendezvous_step env waitBlock) schedule c)"
  using assms
  by (induction schedule arbitrary: c) (simp_all add: rendezvous_inv_step)

lemma rendezvous_inv_run:
  assumes "Flags (mem s waitBlock) AND WaiterSpinning \<noteq> 0"
    and "kwaits s waitBlock = 0" and "kreleases s waitBlock = 0"
  shows "rendezvous_inv waitBlock (rendezvous_run env waitBlock schedule s)"
  unfolding rendezvous_run_def
  by (rule rendezvous_inv_fold) (use assms in \<open>simp add: rendezvous_inv_def\<close>)


lemma Unblock_step_kreleases:
  assumes "pc \<noteq> U_Release"
  shows "kreleases (snd (Unblock_step waitBlock pc s)) = kreleases s"
  using assms
  by (cases pc) (auto simp: CompareExchange_Flags_def split: if_splits)

text \<open>
  C7, as the code has it. Start with the spinning flag of the wait block set and no
  call on its key yet. After any interleaving of the owner's \<open>Block\<close> and the waker's
  \<open>Unblock\<close>, \<open>NtWaitForKeyedEvent\<close> has been called at most once and
  \<open>NtReleaseKeyedEvent\<close> at most once. The release is never ahead of a wait the
  owner has not committed to; when both threads have left, both calls have been made
  or neither; and an owner still inside \<open>NtWaitForKeyedEvent\<close> when the waker has
  returned has its release.

  \<open>Block\<close> goes on to call \<open>NtWaitForKeyedEvent\<close> exactly when its successful
  \<open>CompareExchange\<close> replaced flags with the spinning flag set: that step leads to
  \<open>B_Wait\<close> in this case and to the return otherwise, nothing else leads to
  \<open>B_Wait\<close>, the step at \<open>B_Wait\<close> is the call, and no other step of \<open>Block\<close>
  counts as one. \<open>Unblock\<close> goes on to call \<open>NtReleaseKeyedEvent\<close> exactly when
  its successful \<open>CompareExchange\<close> replaced flags with the spinning flag clear, in
  the same four parts.
\<close>

theorem park_and_release_at_most_once:
  assumes "Flags (mem s waitBlock) AND WaiterSpinning \<noteq> 0"
    and "kwaits s waitBlock = 0" and "kreleases s waitBlock = 0"
  shows "case rendezvous_run env waitBlock schedule s of
           (b, u, s') \<Rightarrow>
             kwaits s' waitBlock \<le> 1 \<and> kreleases s' waitBlock \<le> 1 \<and>
             (kreleases s' waitBlock = 1 \<longrightarrow>
                b = B_Wait \<or> b = B_Waiting \<or> b = B_Return \<or> b = B_Throw) \<and>
             ((b = B_Return \<or> b = B_Throw) \<and> u = U_Return \<longrightarrow>
                kwaits s' waitBlock = kreleases s' waitBlock) \<and>
             (b = B_Waiting \<and> u = U_Return \<longrightarrow> kreleases s' waitBlock = 1) \<and>
             (\<forall>t flags. Flags (mem t waitBlock) = flags \<longrightarrow>
                Unblock_step waitBlock (U_ClearSpinning flags) t =
                  (if flags AND WaiterSpinning = 0 then U_Release else U_Return,
                   set_Flags waitBlock (flags AND NOT WaiterSpinning) t)) \<and>
             (\<forall>pc t. fst (Unblock_step waitBlock pc t) = U_Release \<longrightarrow>
                (\<exists>f. pc = U_ClearSpinning f \<and> Flags (mem t waitBlock) = f \<and>
                     f AND WaiterSpinning = 0)) \<and>
             (\<forall>t flags. Flags (mem t waitBlock) = flags \<longrightarrow>
                Block_step env waitBlock True (B_ClearSpinning flags) t =
                  (if flags AND WaiterSpinning \<noteq> 0 then B_Wait else B_Return,
                   set_Flags waitBlock (flags AND NOT WaiterSpinning) t)) \<and>
             (\<forall>pc t. fst (Block_step env waitBlock True pc t) = B_Wait \<longrightarrow>
                (\<exists>f. pc = B_ClearSpinning f \<and> Flags (mem t waitBlock) = f \<and>
                     f AND WaiterSpinning \<noteq> 0)) \<and>
             (\<forall>t. Block_step env waitBlock True B_Wait t =
                (B_Waiting, t\<lparr>kwaits := (kwaits t)(waitBlock := Suc (kwaits t waitBlock))\<rparr>)) \<and>
             (\<forall>pc t. pc \<noteq> B_Wait \<longrightarrow>
                kwaits (snd (Block_step env waitBlock True pc t)) = kwaits t) \<and>
             (\<forall>t. Unblock_step waitBlock U_Release t =
                (U_Releasing,
                 t\<lparr>kreleases := (kreleases t)(waitBlock := Suc (kreleases t waitBlock))\<rparr>)) \<and>
             (\<forall>pc t. pc \<noteq> U_Release \<longrightarrow>
                kreleases (snd (Unblock_step waitBlock pc t)) = kreleases t)"
proof -
  obtain b u s' where r: "rendezvous_run env waitBlock schedule s = (b, u, s')"
    by (cases "rendezvous_run env waitBlock schedule s") auto
  have "rendezvous_inv waitBlock (b, u, s')"
    using rendezvous_inv_run [OF assms, of env schedule] by (simp add: r)
  then have inv: "kwaits s' waitBlock \<le> 1 \<and> kreleases s' waitBlock \<le> 1 \<and>
             (kreleases s' waitBlock = 1 \<longrightarrow>
                b = B_Wait \<or> b = B_Waiting \<or> b = B_Return \<or> b = B_Throw) \<and>
             ((b = B_Return \<or> b = B_Throw) \<and> u = U_Return \<longrightarrow>
                kwaits s' waitBlock = kreleases s' waitBlock) \<and>
             (b = B_Waiting \<and> u = U_Return \<longrightarrow> kreleases s' waitBlock = 1)"
    by (auto simp add: rendezvous_inv_def Let_def owner_first_def waker_second_def)
  have uc: "\<forall>t flags. Flags (mem t waitBlock) = flags \<longrightarrow>
                Unblock_step waitBlock (U_ClearSpinning flags) t =
                  (if flags AND WaiterSpinning = 0 then U_Release else U_Return,
                   set_Flags waitBlock (flags AND NOT WaiterSpinning) t)"
    by (simp add: CompareExchange_Flags_def set_Flags_def)
  have ur: "\<forall>pc t. fst (Unblock_step waitBlock pc t) = U_Release \<longrightarrow>
                (\<exists>f. pc = U_ClearSpinning f \<and> Flags (mem t waitBlock) = f \<and>
                     f AND WaiterSpinning = 0)"
    using Unblock_step_Release_only_after_clear by blast
  have bc: "\<forall>t flags. Flags (mem t waitBlock) = flags \<longrightarrow>
                Block_step env waitBlock True (B_ClearSpinning flags) t =
                  (if flags AND WaiterSpinning \<noteq> 0 then B_Wait else B_Return,
                   set_Flags waitBlock (flags AND NOT WaiterSpinning) t)"
    by (simp add: CompareExchange_Flags_def set_Flags_def)
  have bw: "\<forall>pc t. fst (Block_step env waitBlock True pc t) = B_Wait \<longrightarrow>
                (\<exists>f. pc = B_ClearSpinning f \<and> Flags (mem t waitBlock) = f \<and>
                     f AND WaiterSpinning \<noteq> 0)"
    using Block_step_Wait_only_after_clear by blast
  have bk: "\<forall>t. Block_step env waitBlock True B_Wait t =
                (B_Waiting, t\<lparr>kwaits := (kwaits t)(waitBlock := Suc (kwaits t waitBlock))\<rparr>)"
    by simp
  have bo: "\<forall>pc t. pc \<noteq> B_Wait \<longrightarrow>
                kwaits (snd (Block_step env waitBlock True pc t)) = kwaits t"
    using Block_step_kwaits by blast
  have uk: "\<forall>t. Unblock_step waitBlock U_Release t =
                (U_Releasing,
                 t\<lparr>kreleases := (kreleases t)(waitBlock := Suc (kreleases t waitBlock))\<rparr>)"
    by simp
  have uo: "\<forall>pc t. pc \<noteq> U_Release \<longrightarrow>
                kreleases (snd (Unblock_step waitBlock pc t)) = kreleases t"
    using Unblock_step_kreleases by blast
  show ?thesis
    unfolding r prod.case
    by (intro conjI uc ur bc bw bk bo uk uo) (use inv in blast)+
qed

lemma example_waiting_keyed_event:
  "kwaits example_waiting 10 = 0" "kreleases example_waiting 10 = 0"
  "Flags (mem example_waiting 10) AND WaiterSpinning \<noteq> 0"
  by (simp_all add: example_defs)

theorem park_and_release_at_most_once_witness:
  "Flags (mem example_waiting 10) AND WaiterSpinning \<noteq> 0 \<and>
   kwaits example_waiting 10 = 0 \<and> kreleases example_waiting 10 = 0 \<and>
   kwaits (snd (snd (rendezvous_run example_os 10 owner_then_waker example_waiting))) 10 \<le> 1 \<and>
   kreleases (snd (snd (rendezvous_run example_os 10 owner_then_waker example_waiting))) 10 \<le> 1 \<and>
   kwaits (snd (snd (rendezvous_run example_os 10 waker_then_owner example_waiting))) 10 \<le> 1 \<and>
   kreleases (snd (snd (rendezvous_run example_os 10 waker_then_owner example_waiting))) 10 \<le> 1 \<and>
   Flags (mem example_waiting 10) = 3 \<and> (3 :: int32) AND WaiterSpinning \<noteq> 0 \<and>
   Block_step example_os 10 True (B_ClearSpinning 3) example_waiting =
     (B_Wait, set_Flags 10 1 example_waiting) \<and>
   Unblock_step 10 (U_ClearSpinning 3) example_waiting =
     (U_Return, set_Flags 10 1 example_waiting) \<and>
   Flags (mem (set_Flags 10 1 example_waiting) 10) = 1 \<and> (1 :: int32) AND WaiterSpinning = 0 \<and>
   Block_step example_os 10 True (B_ClearSpinning 1) (set_Flags 10 1 example_waiting) =
     (B_Return, set_Flags 10 1 (set_Flags 10 1 example_waiting)) \<and>
   Unblock_step 10 (U_ClearSpinning 1) (set_Flags 10 1 example_waiting) =
     (U_Release, set_Flags 10 1 (set_Flags 10 1 example_waiting))"
proof -
  have f: "Flags (mem example_waiting 10) = 3"
    "Flags (mem (set_Flags 10 1 example_waiting) 10) = 1"
    "(3 :: int32) AND NOT WaiterSpinning = 1" "(1 :: int32) AND NOT WaiterSpinning = 1"
    "(3 :: int32) AND WaiterSpinning \<noteq> 0" "(1 :: int32) AND WaiterSpinning = 0"
    by (simp_all add: example_defs)
  note h = example_waiting_keyed_event(3) example_waiting_keyed_event(1,2)
  obtain b u s' where
    r: "rendezvous_run example_os 10 owner_then_waker example_waiting = (b, u, s')"
    by (cases "rendezvous_run example_os 10 owner_then_waker example_waiting") auto
  obtain b2 u2 s2 where
    r2: "rendezvous_run example_os 10 waker_then_owner example_waiting = (b2, u2, s2)"
    by (cases "rendezvous_run example_os 10 waker_then_owner example_waiting") auto
  from park_and_release_at_most_once [OF h, of example_os owner_then_waker]
  have 1: "kwaits s' 10 \<le> 1 \<and> kreleases s' 10 \<le> 1 \<and>
      (\<forall>t flags. Flags (mem t 10) = flags \<longrightarrow>
         Unblock_step 10 (U_ClearSpinning flags) t =
           (if flags AND WaiterSpinning = 0 then U_Release else U_Return,
            set_Flags 10 (flags AND NOT WaiterSpinning) t)) \<and>
      (\<forall>t flags. Flags (mem t 10) = flags \<longrightarrow>
         Block_step example_os 10 True (B_ClearSpinning flags) t =
           (if flags AND WaiterSpinning \<noteq> 0 then B_Wait else B_Return,
            set_Flags 10 (flags AND NOT WaiterSpinning) t))"
    unfolding r prod.case by (elim conjE) (intro conjI; assumption)
  from park_and_release_at_most_once [OF h, of example_os waker_then_owner]
  have 2: "kwaits s2 10 \<le> 1 \<and> kreleases s2 10 \<le> 1"
    unfolding r2 prod.case by (elim conjE) (intro conjI; assumption)
  from 1 have u: "Unblock_step 10 (U_ClearSpinning flags) t =
           (if flags AND WaiterSpinning = 0 then U_Release else U_Return,
            set_Flags 10 (flags AND NOT WaiterSpinning) t)"
    and bl: "Block_step example_os 10 True (B_ClearSpinning flags) t =
           (if flags AND WaiterSpinning \<noteq> 0 then B_Wait else B_Return,
            set_Flags 10 (flags AND NOT WaiterSpinning) t)"
    if "Flags (mem t 10) = flags" for t flags
    using that by blast+
  show ?thesis
    using 1 2 h u [OF f(1)] u [OF f(2)] bl [OF f(1)] bl [OF f(2)] f
    by (simp add: r r2)
qed

text \<open>
  C7, as the specification has it, fails in its last part. When the owner clears the
  flag first it parks and the waker, finding the flag clear, releases: both threads
  make their call. When the waker clears it first neither does. In no execution that
  runs to the end does exactly one of them call.
\<close>

theorem both_call_or_neither_calls:
  "fst (rendezvous_run example_os 10 owner_then_waker example_waiting) = B_Return \<and>
   fst (snd (rendezvous_run example_os 10 owner_then_waker example_waiting)) = U_Return \<and>
   kwaits (snd (snd (rendezvous_run example_os 10 owner_then_waker example_waiting))) 10 = 1 \<and>
   kreleases (snd (snd (rendezvous_run example_os 10 owner_then_waker example_waiting))) 10 = 1 \<and>
   fst (rendezvous_run example_os 10 waker_then_owner example_waiting) = B_Return \<and>
   fst (snd (rendezvous_run example_os 10 waker_then_owner example_waiting)) = U_Return \<and>
   kwaits (snd (snd (rendezvous_run example_os 10 waker_then_owner example_waiting))) 10 = 0 \<and>
   kreleases (snd (snd (rendezvous_run example_os 10 waker_then_owner example_waiting))) 10 = 0"
  by (simp add: rendezvous_run_def owner_then_waker_def waker_then_owner_def example_defs)


section \<open>The dispatch of MmCopyVirtualMemory\<close>

text \<open>
  C10, as the code has it. With a zero length \<open>MmCopyVirtualMemory\<close> returns
  \<open>STATUS_SUCCESS\<close>, calls nothing and leaves the kernel state, \<open>*ReturnLength\<close>
  included, as it was. With a nonzero length it first asks for rundown protection of
  the process to lock: refused, it returns \<open>STATUS_PROCESS_IS_TERMINATING\<close> and
  copies nothing; granted, it calls \<open>MiDoMappedCopy\<close> when the length exceeds
  \<open>MM_POOL_COPY_THRESHOLD\<close> and \<open>MiDoPoolCopy\<close> otherwise, exactly one of the two,
  releases the protection and returns the status of the copy.
\<close>

theorem MmCopyVirtualMemory_dispatch:
  "(BufferLength a = 0 \<longrightarrow> MmCopyVirtualMemory ks a k = (STATUS_SUCCESS, [], k)) \<and>
   (BufferLength a \<noteq> 0 \<longrightarrow>
      (let p = (if FromProcess a = PsGetCurrentProcess ks k then ToProcess a else FromProcess a);
           k1 = snd (KphAcquireProcessRundownProtection ks p k)
       in (\<not> fst (KphAcquireProcessRundownProtection ks p k) \<longrightarrow>
             MmCopyVirtualMemory ks a k =
               (STATUS_PROCESS_IS_TERMINATING, [Call_KphAcquireProcessRundownProtection p], k1)) \<and>
          (fst (KphAcquireProcessRundownProtection ks p k) \<and>
           MM_POOL_COPY_THRESHOLD ks < BufferLength a \<longrightarrow>
             MmCopyVirtualMemory ks a k =
               (fst (MiDoMappedCopy ks a k1),
                [Call_KphAcquireProcessRundownProtection p, Call_MiDoMappedCopy a,
                 Call_KphReleaseProcessRundownProtection p],
                KphReleaseProcessRundownProtection ks p (snd (MiDoMappedCopy ks a k1)))) \<and>
          (fst (KphAcquireProcessRundownProtection ks p k) \<and>
           \<not> MM_POOL_COPY_THRESHOLD ks < BufferLength a \<longrightarrow>
             MmCopyVirtualMemory ks a k =
               (fst (MiDoPoolCopy ks a k1),
                [Call_KphAcquireProcessRundownProtection p, Call_MiDoPoolCopy a,
                 Call_KphReleaseProcessRundownProtection p],
                KphReleaseProcessRundownProtection ks p (snd (MiDoPoolCopy ks a k1))))))"
  by (auto simp add: MmCopyVirtualMemory_def Let_def split: prod.splits bool.splits)

theorem MmCopyVirtualMemory_dispatch_witness:
  "MmCopyVirtualMemory example_services (example_copy 0) ({}, 77) = (STATUS_SUCCESS, [], ({}, 77)) \<and>
   MmCopyVirtualMemory example_services (example_copy 512) ({}, 77) =
     (STATUS_SUCCESS,
      [Call_KphAcquireProcessRundownProtection 2, Call_MiDoMappedCopy (example_copy 512),
       Call_KphReleaseProcessRundownProtection 2], ({}, 512)) \<and>
   MmCopyVirtualMemory example_services (example_copy 511) ({}, 77) =
     (STATUS_SUCCESS,
      [Call_KphAcquireProcessRundownProtection 2, Call_MiDoPoolCopy (example_copy 511),
       Call_KphReleaseProcessRundownProtection 2], ({}, 511)) \<and>
   MmCopyVirtualMemory example_services (example_copy 512) ({2}, 77) =
     (STATUS_PROCESS_IS_TERMINATING, [Call_KphAcquireProcessRundownProtection 2], ({2}, 77))"
  using MmCopyVirtualMemory_dispatch [of "example_copy 0" example_services "({}, 77)"]
    MmCopyVirtualMemory_dispatch [of "example_copy 512" example_services "({}, 77)"]
    MmCopyVirtualMemory_dispatch [of "example_copy 511" example_services "({}, 77)"]
    MmCopyVirtualMemory_dispatch [of "example_copy 512" example_services "({2}, 77)"]
  by (simp add: example_services_def example_copy_def Let_def)

text \<open>
  C10, as stated, fails. A call with a length of 512 bytes, above the threshold, whose
  process to lock is terminating calls neither copy routine.
\<close>

theorem MmCopyVirtualMemory_no_dispatch_when_terminating:
  "BufferLength (example_copy 512) \<noteq> 0 \<and>
   MM_POOL_COPY_THRESHOLD example_services < BufferLength (example_copy 512) \<and>
   fst (snd (MmCopyVirtualMemory example_services (example_copy 512) ({2}, 77)))
     = [Call_KphAcquireProcessRundownProtection 2] \<and>
   fst (MmCopyVirtualMemory example_services (example_copy 512) ({2}, 77))
     = STATUS_PROCESS_IS_TERMINATING"
  by (simp add: MmCopyVirtualMemory_def example_services_def example_copy_def Let_def)


section \<open>The list primitives, field by field\<close>

lemma InsertTailList_fields:
  assumes "entry \<noteq> listHead" "entry \<noteq> Blink (h listHead)"
  shows "Flink (InsertTailList listHead entry h a) =
           (if a = Blink (h listHead) then entry else if a = entry then listHead else Flink (h a))"
    and "Blink (InsertTailList listHead entry h a) =
           (if a = listHead then entry else if a = entry then Blink (h listHead) else Blink (h a))"
    and "Flags (InsertTailList listHead entry h a) = Flags (h a)"
  using assms by (auto simp add: InsertTailList_def Let_def)

lemma InsertHeadList_fields:
  assumes "entry \<noteq> listHead" "entry \<noteq> Flink (h listHead)"
  shows "Flink (InsertHeadList listHead entry h a) =
           (if a = listHead then entry else if a = entry then Flink (h listHead) else Flink (h a))"
    and "Blink (InsertHeadList listHead entry h a) =
           (if a = Flink (h listHead) then entry else if a = entry then listHead else Blink (h a))"
    and "Flags (InsertHeadList listHead entry h a) = Flags (h a)"
  using assms by (auto simp add: InsertHeadList_def Let_def)

lemma RemoveHeadList_fields:
  shows "fst (RemoveHeadList listHead h) = Flink (h listHead)"
    and "Flink (snd (RemoveHeadList listHead h) a) =
           (if a = listHead then Flink (h (Flink (h listHead))) else Flink (h a))"
    and "Blink (snd (RemoveHeadList listHead h) a) =
           (if a = Flink (h (Flink (h listHead))) then listHead else Blink (h a))"
    and "Flags (snd (RemoveHeadList listHead h) a) = Flags (h a)"
  by (auto simp add: RemoveHeadList_def Let_def)

lemma RemoveEntryList_fields:
  shows "Flink (snd (RemoveEntryList entry h) a) =
           (if a = Blink (h entry) then Flink (h entry) else Flink (h a))"
    and "Blink (snd (RemoveEntryList entry h) a) =
           (if a = Flink (h entry) then Blink (h entry) else Blink (h a))"
    and "Flags (snd (RemoveEntryList entry h) a) = Flags (h a)"
  by (auto simp add: RemoveEntryList_def Let_def)

section \<open>Well-formed lists\<close>

lemma links_append:
  "links h p (xs @ y # ys) =
     (links h p xs \<and> Flink (h (last (p # xs))) = y \<and> Blink (h y) = last (p # xs) \<and> links h y ys)"
  by (induction xs arbitrary: p) auto

lemma links_cong:
  assumes "\<And>a. a \<in> set (butlast (p # xs)) \<Longrightarrow> Flink (h' a) = Flink (h a)"
    and "\<And>a. a \<in> set xs \<Longrightarrow> Blink (h' a) = Blink (h a)"
  shows "links h' p xs = links h p xs"
  using assms
proof (induction xs arbitrary: p)
  case Nil
  then show ?case by simp
next
  case (Cons x xs)
  have "links h' x xs = links h x xs"
    by (rule Cons.IH) (use Cons.prems in \<open>auto split: if_splits\<close>)
  moreover have "Flink (h' p) = Flink (h p)" "Blink (h' x) = Blink (h x)"
    using Cons.prems by auto
  ultimately show ?case by simp
qed

lemma dlist_cong:
  assumes "\<And>a. a \<in> set (head # xs) \<Longrightarrow> Flink (h' a) = Flink (h a)"
    and "\<And>a. a \<in> set (head # xs) \<Longrightarrow> Blink (h' a) = Blink (h a)"
  shows "dlist h' head xs = dlist h head xs"
proof -
  have "links h' head xs = links h head xs"
  proof (rule links_cong)
    fix a assume "a \<in> set (butlast (head # xs))"
    then have "a \<in> set (head # xs)" by (rule in_set_butlastD)
    then show "Flink (h' a) = Flink (h a)" by (rule assms(1))
  next
    fix a assume "a \<in> set xs"
    then show "Blink (h' a) = Blink (h a)" using assms(2) by simp
  qed
  moreover have "last (head # xs) \<in> set (head # xs)"
    by (rule last_in_set) simp
  then have "Flink (h' (last (head # xs))) = Flink (h (last (head # xs)))"
    using assms(1) by blast
  moreover have "Blink (h' head) = Blink (h head)"
    using assms(2) by simp
  ultimately show ?thesis
    by (simp add: dlist_def)
qed

lemma dlist_Nil: "dlist h head [] = (Flink (h head) = head \<and> Blink (h head) = head)"
  by (auto simp add: dlist_def)

lemma dlist_Flink_head: "dlist h head xs \<Longrightarrow> Flink (h head) = hd (xs @ [head])"
  by (cases xs) (auto simp add: dlist_def)

lemma dlist_Blink_head: "dlist h head xs \<Longrightarrow> Blink (h head) = last (head # xs)"
  by (simp add: dlist_def)

lemma dlist_Flink_mid:
  "dlist h head (ys @ q # zs) \<Longrightarrow> Flink (h q) = hd (zs @ [head])"
  by (cases zs) (auto simp add: dlist_def links_append)

lemma dlist_Blink_mid:
  "dlist h head (ys @ q # zs) \<Longrightarrow> Blink (h q) = last (head # ys)"
  by (auto simp add: dlist_def links_append)


lemma dlist_split:
  "dlist h head (ys @ q # zs) =
     (distinct (head # ys @ q # zs) \<and> links h head ys \<and>
      Flink (h (last (head # ys))) = q \<and> Blink (h q) = last (head # ys) \<and>
      links h q zs \<and> Flink (h (last (q # zs))) = head \<and> Blink (h head) = last (q # zs))"
  by (auto simp add: dlist_def links_append)

lemma last_notin_butlast:
  assumes "distinct (p # xs)"
  shows "last (p # xs) \<notin> set (butlast (p # xs))"
proof -
  have "p # xs = butlast (p # xs) @ [last (p # xs)]"
    by (rule append_butlast_last_id [symmetric]) simp
  then have "distinct (butlast (p # xs) @ [last (p # xs)])"
    using assms by simp
  then show ?thesis by simp
qed

lemma links_keep:
  assumes "\<And>a. a \<noteq> b \<Longrightarrow> a \<noteq> w \<Longrightarrow> Flink (h' a) = Flink (h a)"
    and "\<And>a. a \<noteq> q \<Longrightarrow> a \<noteq> w \<Longrightarrow> Blink (h' a) = Blink (h a)"
    and "b \<notin> set (butlast (p # xs))" and "w \<notin> set (p # xs)" and "q \<notin> set xs"
  shows "links h' p xs = links h p xs"
proof (rule links_cong)
  fix a assume a: "a \<in> set (butlast (p # xs))"
  then have "a \<in> set (p # xs)" by (rule in_set_butlastD)
  with a assms(3,4) have "a \<noteq> b" "a \<noteq> w" by auto
  then show "Flink (h' a) = Flink (h a)" by (rule assms(1))
next
  fix a assume "a \<in> set xs"
  with assms(4,5) have "a \<noteq> q" "a \<noteq> w" by auto
  then show "Blink (h' a) = Blink (h a)" by (rule assms(2))
qed

lemma dlist_InsertTailList_head:
  assumes d: "dlist h head xs" and w: "w \<notin> set (head # xs)"
  shows "dlist (InsertTailList head w h) head (xs @ [w])"
proof -
  let ?b = "last (head # xs)"
  let ?h = "InsertTailList head w h"
  from d have dist: "distinct (head # xs)" and l: "links h head xs"
    and b: "Blink (h head) = ?b" and f: "Flink (h ?b) = head"
    by (simp_all add: dlist_def)
  have bin: "?b \<in> set (head # xs)" by (rule last_in_set) simp
  with w have wb: "w \<noteq> ?b" "w \<noteq> head" by auto
  have F: "Flink (?h a) = (if a = ?b then w else if a = w then head else Flink (h a))"
    and B: "Blink (?h a) = (if a = head then w else if a = w then ?b else Blink (h a))" for a
    using InsertTailList_fields [of w head h a] wb b by simp_all
  have "links ?h head xs = links h head xs"
    by (rule links_keep [where b = ?b and w = w and q = head])
      (use F B dist w last_notin_butlast [OF dist] in auto)
  with l have "links ?h head xs" by simp
  then have "links ?h head (xs @ [w])"
    using F B wb by (simp add: links_append)
  moreover have "distinct (head # xs @ [w])" using dist w by auto
  moreover have "Flink (?h (last (head # xs @ [w]))) = head" using F wb by simp
  moreover have "Blink (?h head) = last (head # xs @ [w])" using B by simp
  ultimately show ?thesis by (simp add: dlist_def)
qed

lemma dlist_InsertTailList_before:
  assumes d: "dlist h head (ys @ q # zs)" and w: "w \<notin> set (head # ys @ q # zs)"
  shows "dlist (InsertTailList q w h) head (ys @ w # q # zs)"
proof -
  let ?b = "last (head # ys)"
  let ?h = "InsertTailList q w h"
  from d have dist: "distinct (head # ys @ q # zs)" and l1: "links h head ys"
    and f1: "Flink (h ?b) = q" and b1: "Blink (h q) = ?b" and l2: "links h q zs"
    and f2: "Flink (h (last (q # zs))) = head" and b2: "Blink (h head) = last (q # zs)"
    by (simp_all add: dlist_split)
  have bin: "?b \<in> set (head # ys)" by (rule last_in_set) simp
  have lin: "last (q # zs) \<in> set (q # zs)" by (rule last_in_set) simp
  from bin w have wb: "w \<noteq> ?b" "w \<noteq> q" "w \<noteq> head" by auto
  from bin dist have bq: "?b \<noteq> q" "?b \<notin> set zs" by auto
  from dist have dy: "distinct (head # ys)" and dz: "distinct (q # zs)" by auto
  have F: "Flink (?h a) = (if a = ?b then w else if a = w then q else Flink (h a))"
    and B: "Blink (?h a) = (if a = q then w else if a = w then ?b else Blink (h a))" for a
    using InsertTailList_fields [of w q h a] wb b1 by simp_all
  have "links ?h head ys = links h head ys"
    by (rule links_keep [where b = ?b and w = w and q = q])
      (use F B dist w last_notin_butlast [OF dy] in auto)
  with l1 have 1: "links ?h head ys" by simp
  have "links ?h q zs = links h q zs"
    by (rule links_keep [where b = ?b and w = w and q = q])
      (use F B dist w bq in \<open>auto dest: in_set_butlastD\<close>)
  with l2 have 2: "links ?h q zs" by simp
  have 3: "Flink (?h ?b) = w" "Blink (?h w) = ?b" "Flink (?h w) = q" "Blink (?h q) = w"
    using F B wb bq by simp_all
  have "last (q # zs) \<noteq> ?b" "last (q # zs) \<noteq> w"
    using lin bq w by auto
  then have 4: "Flink (?h (last (q # zs))) = head" using F f2 by simp
  have "head \<noteq> q" using dist by auto
  then have 5: "Blink (?h head) = last (q # zs)" using B b2 wb by simp
  have 6: "distinct (head # ys @ w # q # zs)" using dist w by auto
  show ?thesis
    using 1 2 3 4 5 6 dlist_split [of ?h head ys w "q # zs"] by simp
qed

lemma dlist_InsertHeadList:
  assumes d: "dlist h head xs" and w: "w \<notin> set (head # xs)"
  shows "dlist (InsertHeadList head w h) head (w # xs)"
proof -
  let ?f = "hd (xs @ [head])"
  let ?h = "InsertHeadList head w h"
  from d have dist: "distinct (head # xs)" and l: "links h head xs"
    and b: "Blink (h head) = last (head # xs)" and f: "Flink (h (last (head # xs))) = head"
    by (simp_all add: dlist_def)
  have fh: "Flink (h head) = ?f" using d by (rule dlist_Flink_head)
  have fin: "?f \<in> set (head # xs)" by (cases xs) auto
  with w have wf: "w \<noteq> ?f" "w \<noteq> head" by auto
  have F: "Flink (?h a) = (if a = head then w else if a = w then ?f else Flink (h a))"
    and B: "Blink (?h a) = (if a = ?f then w else if a = w then head else Blink (h a))" for a
    using InsertHeadList_fields [of w head h a] wf fh by simp_all
  show ?thesis
  proof (cases xs)
    case Nil
    with F B wf b f show ?thesis by (simp add: dlist_def)
  next
    case (Cons x xs')
    then have fx: "?f = x" by simp
    have "links ?h x xs' = links h x xs'"
      by (rule links_keep [where b = head and w = w and q = x])
        (use F B dist w Cons in \<open>auto dest: in_set_butlastD\<close>)
    moreover have "links h x xs'" using l Cons by simp
    ultimately have 1: "links ?h x xs'" by simp
    have lx: "last (x # xs') \<in> set (x # xs')" by (rule last_in_set) simp
    then have "last (x # xs') \<noteq> head" "last (x # xs') \<noteq> w" using dist w Cons by auto
    then have 2: "Flink (?h (last (x # xs'))) = head" using F f Cons by simp
    have "head \<noteq> x" using dist Cons by auto
    then have 3: "Blink (?h head) = last (x # xs')" using B b wf Cons fx by simp
    have 4: "Flink (?h head) = w" "Blink (?h w) = head" "Flink (?h w) = x" "Blink (?h x) = w"
      using F B wf fx by simp_all
    have 5: "distinct (head # w # x # xs')" using dist w Cons by auto
    show ?thesis
      using 1 2 3 4 5 Cons by (simp add: dlist_def)
  qed
qed

lemma dlist_RemoveHeadList:
  assumes d: "dlist h head (x # xs)"
  shows "fst (RemoveHeadList head h) = x"
    and "dlist (snd (RemoveHeadList head h)) head xs"
proof -
  let ?f = "hd (xs @ [head])"
  let ?h = "snd (RemoveHeadList head h)"
  from d have dist: "distinct (head # x # xs)" and fx: "Flink (h head) = x"
    and bx: "Blink (h x) = head" and l: "links h x xs"
    and f: "Flink (h (last (x # xs))) = head" and b: "Blink (h head) = last (x # xs)"
    by (simp_all add: dlist_def)
  show "fst (RemoveHeadList head h) = x"
    by (simp add: RemoveHeadList_fields fx)
  have ff: "Flink (h x) = ?f"
    using dlist_Flink_mid [of h head "[]" x xs] d by simp
  have F: "Flink (?h a) = (if a = head then ?f else Flink (h a))"
    and B: "Blink (?h a) = (if a = ?f then head else Blink (h a))" for a
    by (simp_all add: RemoveHeadList_fields fx ff)
  show "dlist ?h head xs"
  proof (cases xs)
    case Nil
    with F B show ?thesis by (simp add: dlist_def)
  next
    case (Cons y ys)
    have "links ?h y ys = links h y ys"
      by (rule links_keep [where b = head and w = head and q = y])
        (use F B dist Cons in \<open>auto dest: in_set_butlastD\<close>)
    moreover have "links h y ys" using l Cons by simp
    ultimately have 1: "links ?h y ys" by simp
    have "last (y # ys) \<in> set (y # ys)" by (rule last_in_set) simp
    then have "last (y # ys) \<noteq> head" using dist Cons by auto
    then have 2: "Flink (?h (last (y # ys))) = head" using F f Cons by simp
    have "head \<noteq> y" using dist Cons by auto
    then have 3: "Blink (?h head) = last (y # ys)" using B b Cons by simp
    have 4: "Flink (?h head) = y" "Blink (?h y) = head" using F B Cons by simp_all
    show ?thesis
      using 1 2 3 4 dist Cons by (simp add: dlist_def)
  qed
qed


lemma links_keep_removal:
  assumes "\<And>a. a \<noteq> b \<Longrightarrow> Flink (h' a) = Flink (h a)"
    and "\<And>a. a \<noteq> q \<Longrightarrow> Blink (h' a) = Blink (h a)"
    and "b \<notin> set (butlast (p # xs))" and "q \<notin> set xs"
  shows "links h' p xs = links h p xs"
proof (rule links_cong)
  fix a assume a: "a \<in> set (butlast (p # xs))"
  with assms(3) have "a \<noteq> b" by auto
  then show "Flink (h' a) = Flink (h a)" by (rule assms(1))
next
  fix a assume "a \<in> set xs"
  with assms(4) have "a \<noteq> q" by auto
  then show "Blink (h' a) = Blink (h a)" by (rule assms(2))
qed

lemma dlist_RemoveEntryList:
  assumes d: "dlist h head (ys @ q # zs)"
  shows "dlist (snd (RemoveEntryList q h)) head (ys @ zs)"
proof -
  let ?b = "last (head # ys)"
  let ?f = "hd (zs @ [head])"
  let ?h = "snd (RemoveEntryList q h)"
  from d have dist: "distinct (head # ys @ q # zs)" and l1: "links h head ys"
    and f1: "Flink (h ?b) = q" and b1: "Blink (h q) = ?b" and l2: "links h q zs"
    and f2: "Flink (h (last (q # zs))) = head" and b2: "Blink (h head) = last (q # zs)"
    by (simp_all add: dlist_split)
  have fq: "Flink (h q) = ?f" using d by (rule dlist_Flink_mid)
  have F: "Flink (?h a) = (if a = ?b then ?f else Flink (h a))"
    and B: "Blink (?h a) = (if a = ?f then ?b else Blink (h a))" for a
    by (simp_all add: RemoveEntryList_fields fq b1)
  have bin: "?b \<in> set (head # ys)" by (rule last_in_set) simp
  from dist have dy: "distinct (head # ys)" by auto
  show ?thesis
  proof (cases zs)
    case Nil
    have "links ?h head ys = links h head ys"
      by (rule links_keep_removal [where b = ?b and q = head])
        (use F B dist Nil last_notin_butlast [OF dy] in auto)
    with l1 have "links ?h head ys" by simp
    moreover have "Flink (?h ?b) = head" "Blink (?h head) = ?b"
      using F B Nil by simp_all
    ultimately show ?thesis using dy Nil by (simp add: dlist_def)
  next
    case (Cons z zs')
    from bin dist Cons have bz: "?b \<noteq> z" "?b \<notin> set zs'" "?b \<noteq> q" by auto
    have "links ?h head ys = links h head ys"
      by (rule links_keep_removal [where b = ?b and q = z])
        (use F B dist Cons last_notin_butlast [OF dy] in auto)
    with l1 have 1: "links ?h head ys" by simp
    have "links ?h z zs' = links h z zs'"
      by (rule links_keep_removal [where b = ?b and q = z])
        (use F B dist Cons bz in \<open>auto dest: in_set_butlastD\<close>)
    moreover have "links h z zs'" using l2 Cons by simp
    ultimately have 2: "links ?h z zs'" by simp
    have 3: "Flink (?h ?b) = z" "Blink (?h z) = ?b" using F B Cons by simp_all
    have "last (z # zs') \<in> set (z # zs')" by (rule last_in_set) simp
    then have "last (z # zs') \<noteq> ?b" using bz by auto
    then have 4: "Flink (?h (last (z # zs'))) = head" using F f2 Cons by simp
    have "head \<noteq> z" using dist Cons by auto
    then have 5: "Blink (?h head) = last (z # zs')" using B b2 Cons by simp
    have 6: "distinct (head # ys @ z # zs')" using dist Cons by auto
    show ?thesis
      using 1 2 3 4 5 6 Cons dlist_split [of ?h head ys z zs'] by simp
  qed
qed

section \<open>The classes of the blocks in the list\<close>

lemma shared_iff: "shared s a = (\<not> exclusive s a)"
  by (simp add: shared_def exclusive_def)

lemma classes_filter:
  assumes "\<And>a. a \<in> set es \<Longrightarrow> exclusive s a" and "\<And>a. a \<in> set ss \<Longrightarrow> shared s a"
  shows "filter (exclusive s) (es @ ss) = es" and "filter (shared s) (es @ ss) = ss"
  using assms by (simp_all add: shared_iff filter_empty_conv filter_id_conv)

lemma classes_cong:
  assumes "\<And>a. a \<in> set xs \<Longrightarrow> Flags (mem s' a) = Flags (mem s a)"
  shows "filter (exclusive s') xs = filter (exclusive s) xs"
    and "filter (shared s') xs = filter (shared s) xs"
proof -
  show "filter (exclusive s') xs = filter (exclusive s) xs"
    by (rule filter_cong) (simp_all add: exclusive_def assms)
  show "filter (shared s') xs = filter (shared s) xs"
    by (rule filter_cong) (simp_all add: shared_def assms)
qed

lemma links_unique:
  assumes "links h p xs" and "links h p ys"
    and "Flink (h (last (p # xs))) = head" and "Flink (h (last (p # ys))) = head"
    and "head \<notin> set xs" and "head \<notin> set ys"
  shows "xs = ys"
  using assms
proof (induction xs arbitrary: p ys)
  case Nil
  show ?case
  proof (cases ys)
    case (Cons y ys')
    with Nil have "Flink (h p) = y" "Flink (h p) = head" "head \<noteq> y" by auto
    then show ?thesis by simp
  qed simp
next
  case (Cons x xs)
  show ?case
  proof (cases ys)
    case Nil
    with Cons.prems have "Flink (h p) = x" "Flink (h p) = head" "head \<noteq> x" by auto
    then show ?thesis by simp
  next
    case (Cons y ys')
    with Cons.prems have xy: "x = y" by simp
    have "xs = ys'"
      by (rule Cons.IH [of x]) (use Cons.prems Cons xy in \<open>simp_all split: if_splits\<close>)
    with xy Cons show ?thesis by simp
  qed
qed

lemma dlist_unique:
  assumes "dlist h head xs" and "dlist h head ys"
  shows "xs = ys"
  by (rule links_unique [of h head xs ys head]) (use assms in \<open>simp_all add: dlist_def\<close>)


section \<open>The three insertions\<close>

lemma waiters_okI:
  assumes "dlist (mem s) (m_waitersListHead s) (es @ ss)"
    and "\<And>a. a \<in> set es \<Longrightarrow> exclusive s a" and "\<And>a. a \<in> set ss \<Longrightarrow> shared s a"
    and "m_firstSharedWaiter s = hd (ss @ [m_waitersListHead s])"
    and "shared s (m_waitersListHead s)"
  shows "waiters_ok s (es @ ss)"
proof -
  have f: "filter (exclusive s) (es @ ss) = es" "filter (shared s) (es @ ss) = ss"
    using classes_filter [of es s ss] assms(2,3) by blast+
  show ?thesis
    by (simp only: waiters_ok_def f assms(1,4,5) simp_thms)
qed

lemma waiters_okE:
  assumes "waiters_ok s xs"
  obtains es ss where "xs = es @ ss" and "es = filter (exclusive s) xs"
    and "ss = filter (shared s) xs"
    and "\<And>a. a \<in> set es \<Longrightarrow> exclusive s a" and "\<And>a. a \<in> set ss \<Longrightarrow> shared s a"
    and "dlist (mem s) (m_waitersListHead s) (es @ ss)"
    and "m_firstSharedWaiter s = hd (ss @ [m_waitersListHead s])"
    and "shared s (m_waitersListHead s)"
proof -
  define es where "es = filter (exclusive s) xs"
  define ss where "ss = filter (shared s) xs"
  have x: "xs = es @ ss"
    using assms unfolding waiters_ok_def es_def ss_def by blast
  have "\<And>a. a \<in> set es \<Longrightarrow> exclusive s a" "\<And>a. a \<in> set ss \<Longrightarrow> shared s a"
    by (simp_all add: es_def ss_def)
  moreover have "dlist (mem s) (m_waitersListHead s) (es @ ss)"
    "m_firstSharedWaiter s = hd (ss @ [m_waitersListHead s])" "shared s (m_waitersListHead s)"
    using assms x unfolding waiters_ok_def ss_def by simp_all
  ultimately show thesis
    using that [of es ss] x es_def ss_def by blast
qed

lemma set_Flags_dlist:
  assumes "dlist (mem s) head xs"
  shows "dlist (mem (set_Flags w flags s)) head xs"
  using assms dlist_cong [of head xs "mem (set_Flags w flags s)" "mem s"]
  by (simp add: set_Flags_def)

lemma set_Flags_fields:
  "m_waitersListHead (set_Flags w flags s) = m_waitersListHead s"
  "m_firstSharedWaiter (set_Flags w flags s) = m_firstSharedWaiter s"
  "Flags (mem (set_Flags w flags s) a) = (if a = w then flags else Flags (mem s a))"
  "m_value (set_Flags w flags s) = m_value s"
  by (simp_all add: set_Flags_def)

lemma exclusive_flags: "(WaiterExclusive OR WaiterSpinning) AND WaiterExclusive \<noteq> 0"
  "WaiterSpinning AND WaiterExclusive = 0"
  by (simp_all add: WaiterExclusive_def WaiterSpinning_def)

lemma AcquireExclusive_enqueue_classes:
  assumes d: "dlist (mem s) (m_waitersListHead s) (es @ ss)"
    and e: "\<And>a. a \<in> set es \<Longrightarrow> exclusive s a" and sh: "\<And>a. a \<in> set ss \<Longrightarrow> shared s a"
    and fs: "m_firstSharedWaiter s = hd (ss @ [m_waitersListHead s])"
    and hs: "shared s (m_waitersListHead s)"
    and w: "w \<notin> set (m_waitersListHead s # es @ ss)"
  shows "waiters_ok (AcquireExclusive_enqueue w s) ((es @ [w]) @ ss)"
proof -
  let ?H = "m_waitersListHead s"
  let ?s1 = "set_Flags w (WaiterExclusive OR WaiterSpinning) s"
  let ?s' = "AcquireExclusive_enqueue w s"
  have s': "mem ?s' = InsertTailList (m_firstSharedWaiter s) w (mem ?s1)"
    "m_waitersListHead ?s' = ?H" "m_firstSharedWaiter ?s' = m_firstSharedWaiter s"
    by (simp_all add: AcquireExclusive_enqueue_def AcquireExclusive_insert_def set_Flags_def)
  have d1: "dlist (mem ?s1) ?H (es @ ss)" using d by (rule set_Flags_dlist)
  have wq: "w \<noteq> m_firstSharedWaiter s"
    using w fs by (cases ss) auto
  have "Blink (mem ?s1 (m_firstSharedWaiter s)) = last (?H # es)"
  proof (cases ss)
    case Nil
    then show ?thesis using dlist_Blink_head [OF d1] fs by simp
  next
    case (Cons q zs)
    then show ?thesis using dlist_Blink_mid [of "mem ?s1" ?H es q zs] d1 fs by simp
  qed
  moreover have "last (?H # es) \<in> set (?H # es)" by (rule last_in_set) simp
  ultimately have wb: "w \<noteq> Blink (mem ?s1 (m_firstSharedWaiter s))" using w by auto
  have fl: "Flags (mem ?s' a) = (if a = w then WaiterExclusive OR WaiterSpinning else Flags (mem s a))"
    for a
    using wq wb by (simp add: s' InsertTailList_fields set_Flags_fields)
  have keep: "exclusive ?s' a = exclusive s a" "shared ?s' a = shared s a" if "a \<noteq> w" for a
    using that by (simp_all add: exclusive_def shared_def fl)
  have dl: "dlist (mem ?s') ?H ((es @ [w]) @ ss)"
  proof (cases ss)
    case Nil
    then show ?thesis
      using dlist_InsertTailList_head [OF d1] w fs s' by simp
  next
    case (Cons q zs)
    have "dlist (InsertTailList q w (mem ?s1)) ?H (es @ w # q # zs)"
      by (rule dlist_InsertTailList_before) (use d1 w Cons in \<open>simp_all\<close>)
    then show ?thesis using Cons s' fs by simp
  qed
  show ?thesis
  proof (rule waiters_okI)
    show "dlist (mem ?s') (m_waitersListHead ?s') ((es @ [w]) @ ss)"
      using dl s' by simp
    show "exclusive ?s' a" if "a \<in> set (es @ [w])" for a
      using that e keep(1) [of a] exclusive_flags(1) by (cases "a = w") (auto simp: exclusive_def fl)
    show "shared ?s' a" if "a \<in> set ss" for a
      using that sh keep(2) [of a] w by (cases "a = w") auto
    show "m_firstSharedWaiter ?s' = hd (ss @ [m_waitersListHead ?s'])"
      using fs s' by simp
    show "shared ?s' (m_waitersListHead ?s')"
      using hs keep(2) [of ?H] w s' by simp
  qed
qed

lemma AcquireShared_enqueue_classes:
  assumes d: "dlist (mem s) (m_waitersListHead s) (es @ ss)"
    and e: "\<And>a. a \<in> set es \<Longrightarrow> exclusive s a" and sh: "\<And>a. a \<in> set ss \<Longrightarrow> shared s a"
    and fs: "m_firstSharedWaiter s = hd (ss @ [m_waitersListHead s])"
    and hs: "shared s (m_waitersListHead s)"
    and w: "w \<notin> set (m_waitersListHead s # es @ ss)"
  shows "waiters_ok (AcquireShared_enqueue w s) (es @ (ss @ [w]))"
proof -
  let ?H = "m_waitersListHead s"
  let ?s1 = "set_Flags w WaiterSpinning s"
  let ?h = "InsertTailList ?H w (mem ?s1)"
  let ?b = "last (?H # es @ ss)"
  let ?s' = "AcquireShared_enqueue w s"
  have d1: "dlist (mem ?s1) ?H (es @ ss)" using d by (rule set_Flags_dlist)
  have bl: "Blink (mem ?s1 ?H) = ?b" using dlist_Blink_head [OF d1] .
  have bin: "?b \<in> set (?H # es @ ss)" by (rule last_in_set) simp
  with w have wb: "w \<noteq> ?H" "w \<noteq> ?b" by auto
  have Bw: "Blink (?h w) = ?b"
    using wb bl by (simp add: InsertTailList_fields)
  have fl: "Flags (?h a) = (if a = w then WaiterSpinning else Flags (mem s a))" for a
    using wb bl by (simp add: InsertTailList_fields set_Flags_fields)
  have test: "(?b = ?H \<or> Flags (?h ?b) AND WaiterExclusive \<noteq> 0) = (ss = [])"
  proof (cases "ss = []")
    case True
    show ?thesis
    proof (cases "es = []")
      case True
      with \<open>ss = []\<close> show ?thesis by simp
    next
      case False
      then have "last es \<in> set es" by simp
      then have "exclusive s (last es)" by (rule e)
      then show ?thesis
        using True False wb by (simp add: fl exclusive_def)
    qed
  next
    case False
    then have "last ss \<in> set ss" by simp
    then have "shared s (last ss)" "last ss \<in> set (es @ ss)" by (simp_all add: sh)
    moreover from this d have "last ss \<noteq> ?H" by (auto simp add: dlist_def)
    ultimately show ?thesis
      using False wb by (simp add: fl shared_def)
  qed
  have s': "mem ?s' = ?h" "m_waitersListHead ?s' = ?H"
    "m_firstSharedWaiter ?s' = (if ss = [] then w else m_firstSharedWaiter s)"
    using test Bw
    by (simp_all add: AcquireShared_enqueue_def AcquireShared_insert_def Let_def
        set_Flags_fields)
  have keep: "exclusive ?s' a = exclusive s a" "shared ?s' a = shared s a" if "a \<noteq> w" for a
    using that by (simp_all add: exclusive_def shared_def fl s')
  have dl: "dlist ?h ?H ((es @ ss) @ [w])"
    using dlist_InsertTailList_head [OF d1 w] .
  show ?thesis
  proof (rule waiters_okI)
    show "dlist (mem ?s') (m_waitersListHead ?s') (es @ ss @ [w])"
      using dl s' by simp
    show "exclusive ?s' a" if "a \<in> set es" for a
      using that e keep(1) [of a] w by (cases "a = w") auto
    show "shared ?s' a" if "a \<in> set (ss @ [w])" for a
      using that sh keep(2) [of a] exclusive_flags(2)
      by (cases "a = w") (auto simp: shared_def fl s')
    show "m_firstSharedWaiter ?s' = hd ((ss @ [w]) @ [m_waitersListHead ?s'])"
      using fs s' by (cases ss) simp_all
    show "shared ?s' (m_waitersListHead ?s')"
      using hs keep(2) [of ?H] w s' by simp
  qed
qed

lemma ConvertSharedToExclusive_enqueue_classes:
  assumes d: "dlist (mem s) (m_waitersListHead s) (es @ ss)"
    and e: "\<And>a. a \<in> set es \<Longrightarrow> exclusive s a" and sh: "\<And>a. a \<in> set ss \<Longrightarrow> shared s a"
    and fs: "m_firstSharedWaiter s = hd (ss @ [m_waitersListHead s])"
    and hs: "shared s (m_waitersListHead s)"
    and w: "w \<notin> set (m_waitersListHead s # es @ ss)"
  shows "waiters_ok (ConvertSharedToExclusive_enqueue w s) ((w # es) @ ss)"
proof -
  let ?H = "m_waitersListHead s"
  let ?s1 = "set_Flags w (WaiterExclusive OR WaiterSpinning) s"
  let ?s' = "ConvertSharedToExclusive_enqueue w s"
  have s': "mem ?s' = InsertHeadList ?H w (mem ?s1)"
    "m_waitersListHead ?s' = ?H" "m_firstSharedWaiter ?s' = m_firstSharedWaiter s"
    by (simp_all add: ConvertSharedToExclusive_enqueue_def ConvertSharedToExclusive_insert_def
        set_Flags_def)
  have d1: "dlist (mem ?s1) ?H (es @ ss)" using d by (rule set_Flags_dlist)
  have "Flink (mem ?s1 ?H) = hd ((es @ ss) @ [?H])" using dlist_Flink_head [OF d1] .
  moreover have "hd ((es @ ss) @ [?H]) \<in> set (?H # es @ ss)" by (cases "es @ ss") auto
  ultimately have wf: "w \<noteq> ?H" "w \<noteq> Flink (mem ?s1 ?H)" using w by auto
  have fl: "Flags (mem ?s' a) = (if a = w then WaiterExclusive OR WaiterSpinning else Flags (mem s a))"
    for a
    using wf by (simp add: s' InsertHeadList_fields set_Flags_fields)
  have keep: "exclusive ?s' a = exclusive s a" "shared ?s' a = shared s a" if "a \<noteq> w" for a
    using that by (simp_all add: exclusive_def shared_def fl)
  show ?thesis
  proof (rule waiters_okI)
    show "dlist (mem ?s') (m_waitersListHead ?s') ((w # es) @ ss)"
      using dlist_InsertHeadList [OF d1 w] s' by simp
    show "exclusive ?s' a" if "a \<in> set (w # es)" for a
      using that e keep(1) [of a] exclusive_flags(1) by (cases "a = w") (auto simp: exclusive_def fl)
    show "shared ?s' a" if "a \<in> set ss" for a
      using that sh keep(2) [of a] w by (cases "a = w") auto
    show "m_firstSharedWaiter ?s' = hd (ss @ [m_waitersListHead ?s'])"
      using fs s' by simp
    show "shared ?s' (m_waitersListHead ?s')"
      using hs keep(2) [of ?H] w s' by simp
  qed
qed

lemma enqueue_ok:
  assumes ok: "waiters_ok s xs" and w: "w \<notin> set (m_waitersListHead s # xs)"
  shows "waiters_ok (AcquireExclusive_enqueue w s)
           (filter (exclusive s) xs @ w # filter (shared s) xs)"
    and "waiters_ok (AcquireShared_enqueue w s) (xs @ [w])"
    and "waiters_ok (ConvertSharedToExclusive_enqueue w s) (w # xs)"
proof -
  from ok obtain es ss where x: "xs = es @ ss" and f: "es = filter (exclusive s) xs"
    "ss = filter (shared s) xs"
    and c: "\<And>a. a \<in> set es \<Longrightarrow> exclusive s a" "\<And>a. a \<in> set ss \<Longrightarrow> shared s a"
    "dlist (mem s) (m_waitersListHead s) (es @ ss)"
    "m_firstSharedWaiter s = hd (ss @ [m_waitersListHead s])"
    "shared s (m_waitersListHead s)"
    by (rule waiters_okE) blast
  from w x have w': "w \<notin> set (m_waitersListHead s # es @ ss)" by simp
  show "waiters_ok (AcquireExclusive_enqueue w s)
           (filter (exclusive s) xs @ w # filter (shared s) xs)"
    using AcquireExclusive_enqueue_classes [OF c(3) c(1,2) c(4,5) w'] f by simp
  show "waiters_ok (AcquireShared_enqueue w s) (xs @ [w])"
    using AcquireShared_enqueue_classes [OF c(3) c(1,2) c(4,5) w'] x by simp
  show "waiters_ok (ConvertSharedToExclusive_enqueue w s) (w # xs)"
    using ConvertSharedToExclusive_enqueue_classes [OF c(3) c(1,2) c(4,5) w'] x by simp
qed


section \<open>Unblock and the traversal of the wake list\<close>

lemma Unblock_eq:
  "Unblock w s =
     (if Flags (mem s w) AND WaiterSpinning = 0
      then (set_Flags w (Flags (mem s w) AND NOT WaiterSpinning) s)
             \<lparr>kreleases := (kreleases s)(w := Suc (kreleases s w))\<rparr>
      else set_Flags w (Flags (mem s w) AND NOT WaiterSpinning) s)"
  by (simp add: Unblock_def CompareExchange_Flags_def set_Flags_def)

lemma clear_Spinning_keeps_Exclusive:
  "(flags AND NOT WaiterSpinning) AND WaiterExclusive = flags AND WaiterExclusive"
proof -
  have "NOT WaiterSpinning AND WaiterExclusive = WaiterExclusive"
    by (simp add: WaiterSpinning_def WaiterExclusive_def)
  then show ?thesis by (simp add: and.assoc)
qed

lemma Unblock_fields:
  "Flink (mem (Unblock w s) a) = Flink (mem s a)"
  "Blink (mem (Unblock w s) a) = Blink (mem s a)"
  "exclusive (Unblock w s) a = exclusive s a"
  "shared (Unblock w s) a = shared s a"
  "m_value (Unblock w s) = m_value s"
  "m_waitersListHead (Unblock w s) = m_waitersListHead s"
  "m_firstSharedWaiter (Unblock w s) = m_firstSharedWaiter s"
  "m_lock (Unblock w s) = m_lock s"
  by (simp_all add: Unblock_eq set_Flags_def exclusive_def shared_def
      clear_Spinning_keeps_Exclusive)

lemma fold_Unblock_fields:
  "Flink (mem (fold Unblock ws s) a) = Flink (mem s a)"
  "Blink (mem (fold Unblock ws s) a) = Blink (mem s a)"
  "exclusive (fold Unblock ws s) a = exclusive s a"
  "shared (fold Unblock ws s) a = shared s a"
  "m_value (fold Unblock ws s) = m_value s"
  "m_waitersListHead (fold Unblock ws s) = m_waitersListHead s"
  "m_firstSharedWaiter (fold Unblock ws s) = m_firstSharedWaiter s"
  "m_lock (fold Unblock ws s) = m_lock s"
  by (induction ws arbitrary: s) (simp_all add: Unblock_fields)

lemma dlist_links_only:
  assumes "\<And>a. Flink (h' a) = Flink (h a)" and "\<And>a. Blink (h' a) = Blink (h a)"
  shows "dlist h' head xs = dlist h head xs"
  by (rule dlist_cong) (simp_all add: assms)

lemma unblock_wake_list_suffix:
  assumes "dlist (mem s) wakeList (ps @ rs)"
  shows "unblock_wake_list wakeList (hd (rs @ [wakeList])) s = Some (fold Unblock rs s)"
  using assms
proof (induction rs arbitrary: ps s)
  case Nil
  then show ?case by (simp add: unblock_wake_list.simps)
next
  case (Cons r rs)
  from Cons.prems have ne: "r \<noteq> wakeList" by (auto simp add: dlist_def)
  have fl: "Flink (mem s r) = hd (rs @ [wakeList])"
    using Cons.prems by (rule dlist_Flink_mid)
  have "dlist (mem (Unblock r s)) wakeList ((ps @ [r]) @ rs)"
    using Cons.prems dlist_links_only [of "mem (Unblock r s)" "mem s" wakeList "ps @ r # rs"]
    by (simp add: Unblock_fields)
  then have "unblock_wake_list wakeList (hd (rs @ [wakeList])) (Unblock r s)
               = Some (fold Unblock rs (Unblock r s))"
    by (rule Cons.IH)
  then show ?case
    using ne fl by (subst unblock_wake_list.simps) simp
qed

lemma unblock_wake_list_all:
  assumes "dlist (mem s) wakeList ws"
  shows "unblock_wake_list wakeList (Flink (mem s wakeList)) s = Some (fold Unblock ws s)"
  using unblock_wake_list_suffix [of s wakeList "[]" ws] assms dlist_Flink_head [OF assms]
  by simp


section \<open>The loop of Wake\<close>

lemma move_to_wake_list:
  assumes d: "dlist h head (x # xs)" and dw: "dlist h wakeList ws"
    and dj: "set (head # x # xs) \<inter> set (wakeList # ws) = {}"
  defines "h' \<equiv> InsertTailList wakeList x (snd (RemoveHeadList head h))"
  shows "dlist h' head xs" and "dlist h' wakeList (ws @ [x])"
    and "Flags (h' a) = Flags (h a)"
    and "set (head # xs) \<inter> set (wakeList # ws @ [x]) = {}"
proof -
  let ?h1 = "snd (RemoveHeadList head h)"
  let ?f = "hd (xs @ [head])"
  let ?b = "last (wakeList # ws)"
  from d have dist: "distinct (head # x # xs)" and fx: "Flink (h head) = x"
    by (simp_all add: dlist_def)
  have ff: "Flink (h x) = ?f"
    using dlist_Flink_mid [of h head "[]" x xs] d by simp
  have fin: "?f \<in> set (head # xs)" by (cases xs) auto
  have F1: "Flink (?h1 a) = (if a = head then ?f else Flink (h a))"
    and B1: "Blink (?h1 a) = (if a = ?f then head else Blink (h a))" for a
    by (simp_all add: RemoveHeadList_fields fx ff)
  have d1: "dlist ?h1 head xs" using d by (rule dlist_RemoveHeadList)
  have "dlist ?h1 wakeList ws = dlist h wakeList ws"
    by (rule dlist_cong) (use F1 B1 dj fin in auto)
  with dw have dw1: "dlist ?h1 wakeList ws" by simp
  have xw: "x \<notin> set (wakeList # ws)" using dj by auto
  show "dlist h' wakeList (ws @ [x])"
    unfolding h'_def using dw1 xw by (rule dlist_InsertTailList_head)
  have bl: "Blink (?h1 wakeList) = ?b" using dw1 by (rule dlist_Blink_head)
  have bin: "?b \<in> set (wakeList # ws)" by (rule last_in_set) simp
  with xw have xb: "x \<noteq> wakeList" "x \<noteq> ?b" by auto
  have F2: "Flink (h' a) = (if a = ?b then x else if a = x then wakeList else Flink (?h1 a))"
    and B2: "Blink (h' a) = (if a = wakeList then x else if a = x then ?b else Blink (?h1 a))"
    for a
    unfolding h'_def using InsertTailList_fields [of x wakeList ?h1 a] xb bl by simp_all
  have "dlist h' head xs = dlist ?h1 head xs"
    by (rule dlist_cong) (use F2 B2 dj bin dist in auto)
  with d1 show "dlist h' head xs" by simp
  show "Flags (h' a) = Flags (h a)"
    unfolding h'_def using xb bl by (simp add: InsertTailList_fields RemoveHeadList_fields)
  show "set (head # xs) \<inter> set (wakeList # ws @ [x]) = {}"
    using dj dist by auto
qed

lemma shared_mem_cong:
  assumes "\<And>a. Flags (mem s' a) = Flags (mem s a)"
  shows "shared s' = shared s" and "exclusive s' = exclusive s"
  using assms by (auto simp add: shared_def exclusive_def fun_eq_iff)

lemma Wake_loop_shared_run:
  assumes "dlist (mem s) (m_waitersListHead s) xs" and "dlist (mem s) wakeList ws"
    and "set (m_waitersListHead s # xs) \<inter> set (wakeList # ws) = {}"
  shows "\<exists>h'. Wake_loop wakeList False s =
                Some (hd (dropWhile (shared s) xs @ [m_waitersListHead s]),
                      s\<lparr>m_value := (if dropWhile (shared s) xs = []
                                     then m_value s AND NOT LockWaiters else m_value s),
                        mem := h'\<rparr>) \<and>
              dlist h' (m_waitersListHead s) (dropWhile (shared s) xs) \<and>
              dlist h' wakeList (ws @ takeWhile (shared s) xs) \<and>
              (\<forall>a. Flags (h' a) = Flags (mem s a))"
  using assms
proof (induction xs arbitrary: s ws)
  case Nil
  then have "Flink (mem s (m_waitersListHead s)) = m_waitersListHead s"
    by (simp add: dlist_Nil)
  then have "Wake_loop wakeList False s =
      Some (m_waitersListHead s, s\<lparr>m_value := m_value s AND NOT LockWaiters\<rparr>)"
    by (subst Wake_loop.simps) simp
  with Nil show ?case
    by (intro exI [of _ "mem s"]) simp
next
  case (Cons x xs)
  let ?H = "m_waitersListHead s"
  from Cons.prems(1) have fx: "Flink (mem s ?H) = x" and xH: "x \<noteq> ?H"
    by (auto simp add: dlist_def)
  show ?case
  proof (cases "shared s x")
    case False
    then have "Flags (mem s x) AND WaiterExclusive \<noteq> 0" by (simp add: shared_def)
    then have "Wake_loop wakeList False s = Some (x, s)"
      using fx xH by (subst Wake_loop.simps) simp
    with False Cons.prems show ?thesis
      by (intro exI [of _ "mem s"]) simp
  next
    case True
    define h2 where "h2 = InsertTailList wakeList x (snd (RemoveHeadList ?H (mem s)))"
    let ?s2 = "s\<lparr>mem := h2\<rparr>"
    note m = move_to_wake_list [OF Cons.prems, folded h2_def]
    have sh: "shared ?s2 = shared s"
      by (rule shared_mem_cong) (simp add: m(3))
    have "\<exists>h'. Wake_loop wakeList False ?s2 =
                Some (hd (dropWhile (shared ?s2) xs @ [m_waitersListHead ?s2]),
                      ?s2\<lparr>m_value := (if dropWhile (shared ?s2) xs = []
                                     then m_value ?s2 AND NOT LockWaiters else m_value ?s2),
                        mem := h'\<rparr>) \<and>
              dlist h' (m_waitersListHead ?s2) (dropWhile (shared ?s2) xs) \<and>
              dlist h' wakeList ((ws @ [x]) @ takeWhile (shared ?s2) xs) \<and>
              (\<forall>a. Flags (h' a) = Flags (mem ?s2 a))"
      by (rule Cons.IH) (use m in simp_all)
    then obtain h' where r0: "Wake_loop wakeList False ?s2 =
                Some (hd (dropWhile (shared ?s2) xs @ [m_waitersListHead ?s2]),
                      ?s2\<lparr>m_value := (if dropWhile (shared ?s2) xs = []
                                     then m_value ?s2 AND NOT LockWaiters else m_value ?s2),
                        mem := h'\<rparr>)"
      and d0: "dlist h' (m_waitersListHead ?s2) (dropWhile (shared ?s2) xs)"
        "dlist h' wakeList ((ws @ [x]) @ takeWhile (shared ?s2) xs)"
        "\<forall>a. Flags (h' a) = Flags (mem ?s2 a)"
      by blast
    have r: "Wake_loop wakeList False ?s2 =
                Some (hd (dropWhile (shared s) xs @ [?H]),
                      s\<lparr>m_value := (if dropWhile (shared s) xs = []
                                     then m_value s AND NOT LockWaiters else m_value s),
                        mem := h'\<rparr>)"
      using r0 unfolding sh by simp
    have d: "dlist h' ?H (dropWhile (shared s) xs)"
        "dlist h' wakeList (ws @ x # takeWhile (shared s) xs)"
        "\<And>a. Flags (h' a) = Flags (mem s a)"
      using d0 m(3) unfolding sh by simp_all
    have ex: "Flags (mem s x) AND WaiterExclusive = 0" using True by (simp add: shared_def)
    have "fst (RemoveHeadList ?H (mem s)) = x"
      by (simp add: RemoveHeadList_fields fx)
    then have "Wake_loop wakeList False s = Wake_loop wakeList False ?s2"
      using fx xH ex unfolding h2_def
      by (subst Wake_loop.simps) (simp add: split_beta)
    with r d True show ?thesis
      by (intro exI [of _ h']) simp
  qed
qed


section \<open>Wake\<close>

lemma Wake_frame:
  assumes d: "dlist (mem s) (m_waitersListHead s) xs" and w: "wakeList \<notin> set (m_waitersListHead s # xs)"
  defines "s0 \<equiv> s\<lparr>m_lock := True,
                     mem := (mem s)(wakeList := \<lparr>Flink = wakeList, Blink = wakeList, Flags = 0\<rparr>)\<rparr>"
  shows "dlist (mem s0) (m_waitersListHead s0) xs" and "dlist (mem s0) wakeList []"
    and "set (m_waitersListHead s0 # xs) \<inter> set (wakeList # []) = {}"
    and "\<And>a. a \<noteq> wakeList \<Longrightarrow> Flags (mem s0 a) = Flags (mem s a)"
    and "dropWhile (shared s0) xs = dropWhile (shared s) xs"
    and "takeWhile (shared s0) xs = takeWhile (shared s) xs"
proof -
  have "dlist (mem s0) (m_waitersListHead s) xs = dlist (mem s) (m_waitersListHead s) xs"
    by (rule dlist_cong) (use w in \<open>auto simp add: s0_def\<close>)
  with d show "dlist (mem s0) (m_waitersListHead s0) xs" by (simp add: s0_def)
  show "dlist (mem s0) wakeList []" by (simp add: dlist_Nil s0_def)
  show "set (m_waitersListHead s0 # xs) \<inter> set (wakeList # []) = {}"
    using w by (simp add: s0_def)
  show f: "\<And>a. a \<noteq> wakeList \<Longrightarrow> Flags (mem s0 a) = Flags (mem s a)"
    by (simp add: s0_def)
  have "shared s0 a = shared s a" if "a \<in> set xs" for a
  proof -
    from that w have "a \<noteq> wakeList" by auto
    then show ?thesis using f by (simp add: shared_def)
  qed
  then show "dropWhile (shared s0) xs = dropWhile (shared s) xs"
    and "takeWhile (shared s0) xs = takeWhile (shared s) xs"
    by (auto intro: dropWhile_cong takeWhile_cong)
qed

lemma Wake_exclusive_head:
  assumes l: "\<not> m_lock s" and d: "dlist (mem s) (m_waitersListHead s) (x # xs)"
    and w: "wakeList \<notin> set (m_waitersListHead s # x # xs)" and e: "exclusive s x"
  shows "\<exists>s'. Wake wakeList s = Some s' \<and> dlist (mem s') (m_waitersListHead s) xs \<and>
           m_value s' = m_value s \<and> m_waitersListHead s' = m_waitersListHead s \<and>
           m_firstSharedWaiter s' = m_firstSharedWaiter s \<and> \<not> m_lock s' \<and>
           (\<forall>a. a \<noteq> wakeList \<longrightarrow> exclusive s' a = exclusive s a)"
proof -
  let ?H = "m_waitersListHead s"
  define s0 where "s0 = s\<lparr>m_lock := True,
                     mem := (mem s)(wakeList := \<lparr>Flink = wakeList, Blink = wakeList, Flags = 0\<rparr>)\<rparr>"
  note fr = Wake_frame [OF d w, folded s0_def]
  have H0: "m_waitersListHead s0 = ?H" by (simp add: s0_def)
  from fr(1) have fx: "Flink (mem s0 ?H) = x" and xH: "x \<noteq> ?H"
    by (auto simp add: dlist_def H0)
  have xw: "x \<noteq> wakeList" using w by auto
  have ex: "Flags (mem s0 x) AND WaiterExclusive \<noteq> 0"
    using e fr(4) [OF xw] by (simp add: exclusive_def)
  define h1 where "h1 = snd (RemoveHeadList ?H (mem s0))"
  have rm: "RemoveHeadList ?H (mem s0) = (x, h1)"
    using dlist_RemoveHeadList(1) [of "mem s0" ?H x xs] fr(1)
    by (simp add: h1_def H0 prod_eq_iff)
  have d1: "dlist h1 ?H xs"
    unfolding h1_def using fr(1) by (simp add: H0 dlist_RemoveHeadList(2))
  have f1: "Flags (h1 a) = Flags (mem s0 a)" for a
    by (simp add: h1_def RemoveHeadList_fields)
  have loop: "Wake_loop wakeList True s0 = Some (x, s0\<lparr>mem := h1\<rparr>)"
    using fx xH ex rm by (subst Wake_loop.simps) (simp add: H0)
  define s3 where "s3 = s0\<lparr>mem := h1, m_lock := False\<rparr>"
  have W: "Wake wakeList s = Some (Unblock x s3)"
    using l loop ex f1
    by (simp add: Wake_def s0_def [symmetric] Let_def s3_def)
  have "dlist (mem (Unblock x s3)) ?H xs = dlist (mem s3) ?H xs"
    by (rule dlist_links_only) (simp_all add: Unblock_fields)
  then have "dlist (mem (Unblock x s3)) ?H xs"
    using d1 by (simp add: s3_def)
  moreover have "exclusive (Unblock x s3) a = exclusive s a" if "a \<noteq> wakeList" for a
  proof -
    have "exclusive (Unblock x s3) a = exclusive s3 a" by (simp add: Unblock_fields)
    also have "\<dots> = exclusive s a"
      using fr(4) [OF that] by (simp add: exclusive_def s3_def f1)
    finally show ?thesis .
  qed
  ultimately show ?thesis
    using W by (simp add: Unblock_fields s3_def s0_def)
qed

lemma Wake_loop_first:
  assumes "Flink (mem s (m_waitersListHead s)) = m_waitersListHead s \<or>
           Flags (mem s (Flink (mem s (m_waitersListHead s)))) AND WaiterExclusive = 0"
  shows "Wake_loop wakeList True s = Wake_loop wakeList False s"
  using assms
  by (auto simp add: Wake_loop.simps [of wakeList True s] Wake_loop.simps [of wakeList False s]
      Let_def)

lemma Wake_shared_head:
  assumes l: "\<not> m_lock s" and d: "dlist (mem s) (m_waitersListHead s) xs"
    and w: "wakeList \<notin> set (m_waitersListHead s # xs)"
    and e: "xs = [] \<or> shared s (hd xs)"
  shows "\<exists>s'. Wake wakeList s = Some s' \<and>
           dlist (mem s') (m_waitersListHead s) (dropWhile (shared s) xs) \<and>
           m_value s' = (if dropWhile (shared s) xs = []
                         then m_value s AND NOT LockWaiters else m_value s) \<and>
           m_waitersListHead s' = m_waitersListHead s \<and>
           m_firstSharedWaiter s' =
             (if shared s (hd (dropWhile (shared s) xs @ [m_waitersListHead s]))
              then m_waitersListHead s else m_firstSharedWaiter s) \<and>
           \<not> m_lock s' \<and>
           (\<forall>a. a \<noteq> wakeList \<longrightarrow> exclusive s' a = exclusive s a)"
proof -
  let ?H = "m_waitersListHead s"
  let ?rest = "dropWhile (shared s) xs"
  let ?wb = "hd (?rest @ [?H])"
  define s0 where "s0 = s\<lparr>m_lock := True,
                     mem := (mem s)(wakeList := \<lparr>Flink = wakeList, Blink = wakeList, Flags = 0\<rparr>)\<rparr>"
  note fr = Wake_frame [OF d w, folded s0_def]
  have H0: "m_waitersListHead s0 = ?H" by (simp add: s0_def)
  have "Flink (mem s0 ?H) = hd (xs @ [?H])"
    using dlist_Flink_head [OF fr(1)] by (simp add: H0)
  moreover have "Flags (mem s0 (hd xs)) = Flags (mem s (hd xs))" if "xs \<noteq> []"
    using that w by (intro fr(4)) (cases xs, auto)
  ultimately have first: "Wake_loop wakeList True s0 = Wake_loop wakeList False s0"
    using e by (intro Wake_loop_first) (cases xs, auto simp add: H0 shared_def)
  obtain h' where loop: "Wake_loop wakeList False s0 =
                Some (hd (dropWhile (shared s0) xs @ [m_waitersListHead s0]),
                      s0\<lparr>m_value := (if dropWhile (shared s0) xs = []
                                     then m_value s0 AND NOT LockWaiters else m_value s0),
                        mem := h'\<rparr>)"
      and d0: "dlist h' (m_waitersListHead s0) (dropWhile (shared s0) xs)"
        "dlist h' wakeList ([] @ takeWhile (shared s0) xs)"
        "\<forall>a. Flags (h' a) = Flags (mem s0 a)"
    using Wake_loop_shared_run [OF fr(1,2,3)] by blast
  define v where "v = (if ?rest = [] then m_value s AND NOT LockWaiters else m_value s)"
  have v0: "m_value s0 = m_value s" by (simp add: s0_def)
  have loop': "Wake_loop wakeList True s0 = Some (?wb, s0\<lparr>m_value := v, mem := h'\<rparr>)"
    using loop first by (simp add: fr(5) H0 v_def v0)
  have d1: "dlist h' ?H ?rest" "dlist h' wakeList (takeWhile (shared s) xs)"
    using d0 by (simp_all add: fr(5,6) H0)
  have "?wb \<in> set (?H # xs)"
    using set_dropWhileD [of _ "shared s" xs] by (cases ?rest) (auto simp: hd_append)
  with w have wbw: "?wb \<noteq> wakeList" by auto
  have fwb: "Flags (h' ?wb) = Flags (mem s ?wb)"
    using d0(3) fr(4) [OF wbw] by simp
  define s3 where "s3 = s0\<lparr>m_value := v, mem := h',
      m_firstSharedWaiter := (if shared s ?wb then ?H else m_firstSharedWaiter s),
      m_lock := False\<rparr>"
  have keep: "exclusive t a = exclusive s a"
    if "a \<noteq> wakeList" and "\<And>b. exclusive t b = exclusive s3 b" for a t
    using that(2) [of a] d0(3) fr(4) [OF that(1)] by (simp add: exclusive_def s3_def)
  show ?thesis
  proof (cases "shared s ?wb")
    case True
    then have t: "Flags (h' ?wb) AND WaiterExclusive = 0" by (simp add: fwb shared_def)
    have "unblock_wake_list wakeList (Flink (mem s3 wakeList)) s3
            = Some (fold Unblock (takeWhile (shared s) xs) s3)"
      by (rule unblock_wake_list_all) (simp add: s3_def d1)
    then have W: "Wake wakeList s = Some (fold Unblock (takeWhile (shared s) xs) s3)"
      using l loop' t True
      by (simp add: Wake_def s0_def [symmetric] Let_def s3_def H0)
    have "dlist (mem (fold Unblock (takeWhile (shared s) xs) s3)) ?H ?rest
            = dlist (mem s3) ?H ?rest"
      by (rule dlist_links_only) (simp_all add: fold_Unblock_fields)
    then have "dlist (mem (fold Unblock (takeWhile (shared s) xs) s3)) ?H ?rest"
      using d1 by (simp add: s3_def)
    moreover have "exclusive (fold Unblock (takeWhile (shared s) xs) s3) a = exclusive s a"
      if "a \<noteq> wakeList" for a
      using that by (rule keep) (simp add: fold_Unblock_fields)
    ultimately show ?thesis
      using W True by (simp add: fold_Unblock_fields s3_def s0_def v_def)
  next
    case False
    then have t: "Flags (h' ?wb) AND WaiterExclusive \<noteq> 0" by (simp add: fwb shared_def)
    have s3': "s3 = s0\<lparr>m_value := v, mem := h', m_lock := False\<rparr>"
      using False by (simp add: s3_def s0_def)
    have W: "Wake wakeList s = Some (Unblock ?wb s3)"
      unfolding s3' using l loop' t False
      by (simp add: Wake_def s0_def [symmetric] Let_def H0)
    have "dlist (mem (Unblock ?wb s3)) ?H ?rest = dlist (mem s3) ?H ?rest"
      by (rule dlist_links_only) (simp_all add: Unblock_fields)
    then have "dlist (mem (Unblock ?wb s3)) ?H ?rest"
      using d1 by (simp add: s3_def)
    moreover have "exclusive (Unblock ?wb s3) a = exclusive s a" if "a \<noteq> wakeList" for a
      using that by (rule keep) (simp add: Unblock_fields)
    ultimately show ?thesis
      using W False by (simp add: Unblock_fields s3_def s0_def v_def)
  qed
qed


section \<open>WakeShared\<close>

lemma move_entry_to_wake_list:
  assumes d: "dlist h head (es @ q # zs)" and dw: "dlist h wakeList ws"
    and dj: "set (head # es @ q # zs) \<inter> set (wakeList # ws) = {}"
  defines "h' \<equiv> InsertTailList wakeList q (snd (RemoveEntryList q h))"
  shows "dlist h' head (es @ zs)" and "dlist h' wakeList (ws @ [q])"
    and "Flags (h' a) = Flags (h a)"
    and "set (head # es @ zs) \<inter> set (wakeList # ws @ [q]) = {}"
proof -
  let ?h1 = "snd (RemoveEntryList q h)"
  let ?f = "hd (zs @ [head])"
  let ?p = "last (head # es)"
  let ?b = "last (wakeList # ws)"
  from d have dist: "distinct (head # es @ q # zs)" by (simp add: dlist_def)
  have fq: "Flink (h q) = ?f" using d by (rule dlist_Flink_mid)
  have bq: "Blink (h q) = ?p" using d by (rule dlist_Blink_mid)
  have fin: "?f \<in> set (head # zs)" by (cases zs) auto
  have pin: "?p \<in> set (head # es)" by (rule last_in_set) simp
  have F1: "Flink (?h1 a) = (if a = ?p then ?f else Flink (h a))"
    and B1: "Blink (?h1 a) = (if a = ?f then ?p else Blink (h a))" for a
    by (simp_all add: RemoveEntryList_fields fq bq)
  have d1: "dlist ?h1 head (es @ zs)" using d by (rule dlist_RemoveEntryList)
  have "dlist ?h1 wakeList ws = dlist h wakeList ws"
    by (rule dlist_cong) (use F1 B1 dj fin pin in auto)
  with dw have dw1: "dlist ?h1 wakeList ws" by simp
  have qw: "q \<notin> set (wakeList # ws)" using dj by auto
  show "dlist h' wakeList (ws @ [q])"
    unfolding h'_def using dw1 qw by (rule dlist_InsertTailList_head)
  have bl: "Blink (?h1 wakeList) = ?b" using dw1 by (rule dlist_Blink_head)
  have bin: "?b \<in> set (wakeList # ws)" by (rule last_in_set) simp
  with qw have qb: "q \<noteq> wakeList" "q \<noteq> ?b" by auto
  have F2: "Flink (h' a) = (if a = ?b then q else if a = q then wakeList else Flink (?h1 a))"
    and B2: "Blink (h' a) = (if a = wakeList then q else if a = q then ?b else Blink (?h1 a))"
    for a
    unfolding h'_def using InsertTailList_fields [of q wakeList ?h1 a] qb bl by simp_all
  have "dlist h' head (es @ zs) = dlist ?h1 head (es @ zs)"
    by (rule dlist_cong) (use F2 B2 dj bin dist in auto)
  with d1 show "dlist h' head (es @ zs)" by simp
  show "Flags (h' a) = Flags (h a)"
    unfolding h'_def using qb bl by (simp add: InsertTailList_fields RemoveEntryList_fields)
  show "set (head # es @ zs) \<inter> set (wakeList # ws @ [q]) = {}"
    using dj dist by auto
qed

lemma WakeShared_loop_run:
  assumes "dlist (mem s) (m_waitersListHead s) (es @ ss)" and "dlist (mem s) wakeList ws"
    and "set (m_waitersListHead s # es @ ss) \<inter> set (wakeList # ws) = {}"
  shows "\<exists>h'. WakeShared_loop wakeList (hd (ss @ [m_waitersListHead s])) s =
                Some (s\<lparr>m_value := m_value s AND NOT LockWaiters, mem := h'\<rparr>) \<and>
              dlist h' (m_waitersListHead s) es \<and> dlist h' wakeList (ws @ ss) \<and>
              (\<forall>a. Flags (h' a) = Flags (mem s a))"
  using assms
proof (induction ss arbitrary: s ws)
  case Nil
  have "WakeShared_loop wakeList (m_waitersListHead s) s =
      Some (s\<lparr>m_value := m_value s AND NOT LockWaiters\<rparr>)"
    by (subst WakeShared_loop.simps) simp
  with Nil show ?case
    by (intro exI [of _ "mem s"]) simp
next
  case (Cons q zs)
  let ?H = "m_waitersListHead s"
  from Cons.prems(1) have qH: "q \<noteq> ?H" by (auto simp add: dlist_def)
  have fq: "Flink (mem s q) = hd (zs @ [?H])"
    using Cons.prems(1) by (rule dlist_Flink_mid)
  define h2 where "h2 = InsertTailList wakeList q (snd (RemoveEntryList q (mem s)))"
  let ?s2 = "s\<lparr>mem := h2\<rparr>"
  note m = move_entry_to_wake_list [OF Cons.prems, folded h2_def]
  have "\<exists>h'. WakeShared_loop wakeList (hd (zs @ [m_waitersListHead ?s2])) ?s2 =
                Some (?s2\<lparr>m_value := m_value ?s2 AND NOT LockWaiters, mem := h'\<rparr>) \<and>
              dlist h' (m_waitersListHead ?s2) es \<and> dlist h' wakeList ((ws @ [q]) @ zs) \<and>
              (\<forall>a. Flags (h' a) = Flags (mem ?s2 a))"
    by (rule Cons.IH) (use m in simp_all)
  then obtain h' where r0: "WakeShared_loop wakeList (hd (zs @ [m_waitersListHead ?s2])) ?s2 =
                Some (?s2\<lparr>m_value := m_value ?s2 AND NOT LockWaiters, mem := h'\<rparr>)"
    and d0: "dlist h' (m_waitersListHead ?s2) es" "dlist h' wakeList ((ws @ [q]) @ zs)"
      "\<forall>a. Flags (h' a) = Flags (mem ?s2 a)"
    by blast
  have r: "WakeShared_loop wakeList (hd (zs @ [?H])) ?s2 =
             Some (s\<lparr>m_value := m_value s AND NOT LockWaiters, mem := h'\<rparr>)"
    using r0 by simp
  have "WakeShared_loop wakeList (hd ((q # zs) @ [?H])) s
          = WakeShared_loop wakeList (hd (zs @ [?H])) ?s2"
    using qH fq unfolding h2_def
    by (subst WakeShared_loop.simps) (simp add: split_beta Let_def)
  with r d0 m(3) show ?case
    by (intro exI [of _ h']) simp
qed

lemma WakeShared_result:
  assumes l: "\<not> m_lock s" and d: "dlist (mem s) (m_waitersListHead s) (es @ ss)"
    and fs: "m_firstSharedWaiter s = hd (ss @ [m_waitersListHead s])"
    and w: "wakeList \<notin> set (m_waitersListHead s # es @ ss)"
  shows "\<exists>s'. WakeShared wakeList s = Some s' \<and> dlist (mem s') (m_waitersListHead s) es \<and>
           m_value s' = m_value s AND NOT LockWaiters \<and>
           m_waitersListHead s' = m_waitersListHead s \<and>
           m_firstSharedWaiter s' = m_waitersListHead s \<and> \<not> m_lock s' \<and>
           (\<forall>a. a \<noteq> wakeList \<longrightarrow> exclusive s' a = exclusive s a)"
proof -
  let ?H = "m_waitersListHead s"
  define s0 where "s0 = s\<lparr>m_lock := True,
                     mem := (mem s)(wakeList := \<lparr>Flink = wakeList, Blink = wakeList, Flags = 0\<rparr>)\<rparr>"
  note fr = Wake_frame [OF d w, folded s0_def]
  have H0: "m_waitersListHead s0 = ?H" "m_firstSharedWaiter s0 = hd (ss @ [?H])"
    "m_value s0 = m_value s"
    using fs by (simp_all add: s0_def)
  obtain h' where loop0: "WakeShared_loop wakeList (hd (ss @ [m_waitersListHead s0])) s0 =
                Some (s0\<lparr>m_value := m_value s0 AND NOT LockWaiters, mem := h'\<rparr>)"
    and d0: "dlist h' (m_waitersListHead s0) es" "dlist h' wakeList ([] @ ss)"
      "\<forall>a. Flags (h' a) = Flags (mem s0 a)"
    using WakeShared_loop_run [OF fr(1,2,3)] by blast
  define s3 where "s3 = s0\<lparr>m_value := m_value s AND NOT LockWaiters, mem := h',
      m_firstSharedWaiter := ?H, m_lock := False\<rparr>"
  have loop: "WakeShared_loop wakeList (m_firstSharedWaiter s0) s0 =
                Some (s0\<lparr>m_value := m_value s AND NOT LockWaiters, mem := h'\<rparr>)"
    using loop0 by (simp add: H0)
  have "unblock_wake_list wakeList (Flink (mem s3 wakeList)) s3 = Some (fold Unblock ss s3)"
    by (rule unblock_wake_list_all) (use d0 in \<open>simp add: s3_def\<close>)
  then have W: "WakeShared wakeList s = Some (fold Unblock ss s3)"
    using l loop by (simp add: WakeShared_def s0_def [symmetric] Let_def s3_def H0)
  have "dlist (mem (fold Unblock ss s3)) ?H es = dlist (mem s3) ?H es"
    by (rule dlist_links_only) (simp_all add: fold_Unblock_fields)
  then have "dlist (mem (fold Unblock ss s3)) ?H es"
    using d0 by (simp add: s3_def H0)
  moreover have "exclusive (fold Unblock ss s3) a = exclusive s a" if "a \<noteq> wakeList" for a
  proof -
    have "exclusive (fold Unblock ss s3) a = exclusive s3 a" by (simp add: fold_Unblock_fields)
    also have "\<dots> = exclusive s a"
      using fr(4) [OF that] d0(3) by (simp add: exclusive_def s3_def)
    finally show ?thesis .
  qed
  ultimately show ?thesis
    using W by (simp add: fold_Unblock_fields s3_def s0_def)
qed


section \<open>The waiters bit after Wake\<close>

lemma Wake_rest_cases:
  "xs \<noteq> [] \<and> exclusive s (hd xs) \<Longrightarrow> Wake_rest s xs = tl xs \<and> \<not> Wake_clears s xs"
  "xs = [] \<or> shared s (hd xs) \<Longrightarrow>
     Wake_rest s xs = dropWhile (shared s) xs \<and>
     Wake_clears s xs = (dropWhile (shared s) xs = [])"
  by (cases xs; simp add: Wake_rest_def Wake_clears_def shared_iff)+

lemma Wake_result:
  assumes l: "\<not> m_lock s" and d: "dlist (mem s) (m_waitersListHead s) xs"
    and w: "wakeList \<notin> set (m_waitersListHead s # xs)"
  shows "\<exists>s'. Wake wakeList s = Some s' \<and>
           dlist (mem s') (m_waitersListHead s') (Wake_rest s xs) \<and>
           m_value s' = (if Wake_clears s xs then m_value s AND NOT LockWaiters else m_value s)"
proof (cases "xs \<noteq> [] \<and> exclusive s (hd xs)")
  case True
  then obtain x xs' where x: "xs = x # xs'" "exclusive s x" by (cases xs) auto
  from Wake_exclusive_head [OF l d [unfolded x(1)] w [unfolded x(1)] x(2)]
    Wake_rest_cases(1) [OF True] x
  show ?thesis by auto
next
  case False
  then have e: "xs = [] \<or> shared s (hd xs)" by (auto simp add: shared_iff)
  from Wake_shared_head [OF l d w e] Wake_rest_cases(2) [OF e]
  show ?thesis by auto
qed

text \<open>
  C2, as the code has it. On a well-formed list, with the list lock free, \<open>Wake\<close>
  returns and leaves in the list what \<open>Wake_rest\<close> says: the tail when the head was
  exclusive, else what follows the shared blocks at the head. It clears the waiters bit
  exactly when its loop comes upon the sentinel, that is when the list was empty or
  when it began with a shared block and nothing came after the shared blocks it
  removed; otherwise the state word is as it was.
\<close>

theorem Wake_clears_waiters_bit_when_loop_finds_list_empty:
  assumes "\<not> m_lock s" and "dlist (mem s) (m_waitersListHead s) xs"
    and "wakeList \<notin> set (m_waitersListHead s # xs)"
  shows "\<exists>s'. Wake wakeList s = Some s' \<and>
           dlist (mem s') (m_waitersListHead s') (Wake_rest s xs) \<and>
           m_value s' = (if Wake_clears s xs then m_value s AND NOT LockWaiters else m_value s)"
  using assms by (rule Wake_result)


lemmas list_example_defs =
  example_shared_waiting_def example_converted_def example_two_waiting_def set_value_def
  example_waiting_def example_lock_def
  FairResourceLock_new_def zero_mem_def
  AcquireExclusive_enqueue_def AcquireExclusive_insert_def
  AcquireShared_enqueue_def AcquireShared_insert_def
  ConvertSharedToExclusive_enqueue_def ConvertSharedToExclusive_insert_def set_Flags_def
  InsertTailList_def InsertHeadList_def RemoveHeadList_def RemoveEntryList_def
  WaiterExclusive_def WaiterSpinning_def LockOwned_def LockWaiters_def Let_def

lemma example_lists:
  "m_waitersListHead example_shared_waiting = 100" "\<not> m_lock example_shared_waiting"
  "dlist (mem example_shared_waiting) 100 [11]" "shared example_shared_waiting 11"
  "m_value example_shared_waiting = 3"
  "m_waitersListHead example_waiting = 100" "\<not> m_lock example_waiting"
  "dlist (mem example_waiting) 100 [10]" "exclusive example_waiting 10"
  "m_value example_waiting = 3"
  by (simp_all add: list_example_defs dlist_def shared_def exclusive_def)

theorem Wake_clears_waiters_bit_when_loop_finds_list_empty_witness:
  "\<not> m_lock example_shared_waiting \<and>
   dlist (mem example_shared_waiting) (m_waitersListHead example_shared_waiting) [11] \<and>
   50 \<notin> set (m_waitersListHead example_shared_waiting # [11]) \<and>
   map_option m_value (Wake 50 example_shared_waiting) = Some 1 \<and>
   \<not> m_lock example_waiting \<and>
   dlist (mem example_waiting) (m_waitersListHead example_waiting) [10] \<and>
   50 \<notin> set (m_waitersListHead example_waiting # [10]) \<and>
   map_option m_value (Wake 50 example_waiting) = Some 3"
proof -
  have h1: "\<not> m_lock example_shared_waiting"
    "dlist (mem example_shared_waiting) (m_waitersListHead example_shared_waiting) [11]"
    "50 \<notin> set (m_waitersListHead example_shared_waiting # [11])"
    and h2: "\<not> m_lock example_waiting"
    "dlist (mem example_waiting) (m_waitersListHead example_waiting) [10]"
    "50 \<notin> set (m_waitersListHead example_waiting # [10])"
    by (simp_all add: example_lists)
  have c: "Wake_clears example_shared_waiting [11]"
    by (simp add: Wake_clears_def example_lists)
  have c': "\<not> Wake_clears example_waiting [10]"
    using example_lists(9) by (simp add: Wake_clears_def shared_iff)
  have v: "(3 :: int32) AND NOT LockWaiters = 1"
    by (simp add: LockWaiters_def)
  from Wake_clears_waiters_bit_when_loop_finds_list_empty [OF h1]
  have "map_option m_value (Wake 50 example_shared_waiting) = Some 1"
    by (auto simp add: c example_lists v)
  moreover from Wake_clears_waiters_bit_when_loop_finds_list_empty [OF h2]
  have "map_option m_value (Wake 50 example_waiting) = Some 3"
    by (auto simp add: c' example_lists)
  ultimately show ?thesis
    using h1 h2 by simp
qed

text \<open>
  C2, as the specification has it, fails. With the waiters bit set and one shared
  waiter, block 11, in the list, \<open>Wake\<close> removes the block, comes upon the sentinel
  in the next round of its loop and clears the waiters bit: it has dequeued a block
  and did not find the list empty at the start.
\<close>

theorem Wake_dequeues_and_clears_waiters_bit:
  "dlist (mem example_shared_waiting) 100 [11] \<and>
   Waiters (m_value example_shared_waiting) \<and>
   map_option (\<lambda>s'. dlist (mem s') 100 []) (Wake 50 example_shared_waiting) = Some True \<and>
   map_option (\<lambda>s'. Waiters (m_value s')) (Wake 50 example_shared_waiting) = Some False"
  by (simp add: list_example_defs Wake_def Wake_loop.simps unblock_wake_list.simps
      Unblock_eq dlist_def Waiters_def)

section \<open>The waiters bit after WakeShared\<close>

text \<open>
  C3: the code does not do what the claim, and the comment in the code, say. The
  lock is held shared after a conversion, with the exclusive block 10 and the shared
  block 11 waiting and \<open>_firstSharedWaiter\<close> at block 11. \<open>WakeShared\<close> removes
  block 11 only and resets \<open>_firstSharedWaiter\<close>, but it clears the waiters bit
  although block 10 is still in the list: its loop takes the end of its traversal for
  an empty list. Run from the lock held exclusively, \<open>ConvertExclusiveToShared\<close>
  ends with state word 5; the \<open>ReleaseShared\<close> that follows reads no waiters bit,
  calls no \<open>Wake\<close> and leaves the lock free with block 10 in the list, its spinning
  flag never cleared.
\<close>

theorem WakeShared_clears_waiters_bit_with_exclusive_waiter_queued:
  "dlist (mem example_converted) 100 [10, 11] \<and>
   exclusive example_converted 10 \<and> shared example_converted 11 \<and>
   m_firstSharedWaiter example_converted = 11 \<and>
   Waiters (m_value example_converted) \<and>
   map_option (\<lambda>s'. dlist (mem s') 100 [10]) (WakeShared 50 example_converted) = Some True \<and>
   map_option m_firstSharedWaiter (WakeShared 50 example_converted) = Some 100 \<and>
   map_option (\<lambda>s'. Waiters (m_value s')) (WakeShared 50 example_converted) = Some False \<and>
   fst (run (ConvertExclusiveToShared_step 50) [id, id, id] R_Read example_two_waiting)
     = R_Return \<and>
   m_value (snd (run (ConvertExclusiveToShared_step 50) [id, id, id] R_Read example_two_waiting))
     = 5 \<and>
   run (ReleaseShared_step 50) [id, id] R_Read
       (snd (run (ConvertExclusiveToShared_step 50) [id, id, id] R_Read example_two_waiting))
     = (R_Return,
        set_value 0
          (snd (run (ConvertExclusiveToShared_step 50) [id, id, id] R_Read example_two_waiting))) \<and>
   dlist (mem (snd (run (ConvertExclusiveToShared_step 50) [id, id, id] R_Read
                      example_two_waiting))) 100 [10] \<and>
   Flags (mem (snd (run (ConvertExclusiveToShared_step 50) [id, id, id] R_Read
                      example_two_waiting)) 10) = WaiterExclusive OR WaiterSpinning"
proof -
  have w: "WakeShared 50 example_converted \<noteq> None"
    "map_option (\<lambda>s'. dlist (mem s') 100 [10]) (WakeShared 50 example_converted) = Some True"
    "map_option m_firstSharedWaiter (WakeShared 50 example_converted) = Some 100"
    "map_option m_value (WakeShared 50 example_converted) = Some 5"
    "map_option (\<lambda>s'. Flags (mem s' 10)) (WakeShared 50 example_converted) = Some 3"
    by (simp_all add: list_example_defs WakeShared_def WakeShared_loop.simps
        unblock_wake_list.simps Unblock_eq dlist_def)
  then obtain s' where s': "WakeShared 50 example_converted = Some s'"
    "dlist (mem s') 100 [10]" "m_value s' = 5" "Flags (mem s' 10) = 3"
    by auto
  have c: "run (ConvertExclusiveToShared_step 50) [id, id, id] R_Read example_two_waiting
             = (R_Return, s')"
  proof -
    have "m_value example_two_waiting = 3"
      by (simp add: list_example_defs)
    moreover have "example_two_waiting\<lparr>m_value := 7\<rparr> = example_converted"
      by (simp add: example_converted_def set_value_def)
    ultimately show ?thesis
      using s'(1) by (simp add: Let_def CompareExchange_value_def LockSharedOwnersIncrement_def
          LockWaiters_def)
  qed
  have so: "signed_drop_bit LockSharedOwnersShift (5 :: int32) AND LockSharedOwnersMask = 1"
    using SharedOwners_drop_bit [of 5] by (simp add: SharedOwners_def drop_bit_eq_div)
  have r: "run (ReleaseShared_step 50) [id, id] R_Read s' = (R_Return, set_value 0 s')"
    using s'(3) so
    by (simp add: Let_def CompareExchange_value_def LockSharedOwnersIncrement_def
        LockWaiters_def LockOwned_def set_value_def)
  have e: "dlist (mem example_converted) 100 [10, 11]"
    "exclusive example_converted 10" "shared example_converted 11"
    "m_firstSharedWaiter example_converted = 11" "Waiters (m_value example_converted)"
    by (simp_all add: list_example_defs dlist_def Waiters_def exclusive_def shared_def)
  have "map_option (\<lambda>s'. Waiters (m_value s')) (WakeShared 50 example_converted) = Some False"
    using s' by (simp add: Waiters_def LockWaiters_def)
  then show ?thesis
    using e w(2,3) c r s'(2,3,4)
    by (simp add: WaiterExclusive_def WaiterSpinning_def)
qed


section \<open>The order of the waiters list\<close>

lemma waiters_ok_fresh_classes:
  assumes "\<And>a. a \<noteq> w \<Longrightarrow> exclusive s' a = exclusive s a" and "w \<notin> set (head # xs)"
  shows "\<And>a. a \<in> set (head # xs) \<Longrightarrow> exclusive s' a = exclusive s a"
    and "\<And>a. a \<in> set (head # xs) \<Longrightarrow> shared s' a = shared s a"
proof -
  fix a assume "a \<in> set (head # xs)"
  with assms(2) have "a \<noteq> w" by auto
  then show "exclusive s' a = exclusive s a" by (rule assms(1))
  then show "shared s' a = shared s a" by (simp add: shared_iff)
qed

lemma Wake_ok:
  assumes ok: "waiters_ok s xs" and l: "\<not> m_lock s"
    and w: "wakeList \<notin> set (m_waitersListHead s # xs)"
  shows "\<exists>s'. Wake wakeList s = Some s' \<and> waiters_ok s' (Wake_rest s xs)"
proof -
  let ?H = "m_waitersListHead s"
  from ok obtain es ss where x: "xs = es @ ss"
    and c: "\<And>a. a \<in> set es \<Longrightarrow> exclusive s a" "\<And>a. a \<in> set ss \<Longrightarrow> shared s a"
    "dlist (mem s) ?H (es @ ss)" "m_firstSharedWaiter s = hd (ss @ [?H])" "shared s ?H"
    by (rule waiters_okE) blast
  have d: "dlist (mem s) ?H xs" using c(3) x by simp
  show ?thesis
  proof (cases "xs \<noteq> [] \<and> exclusive s (hd xs)")
    case True
    then obtain y ys where y: "xs = y # ys" "exclusive s y" by (cases xs) auto
    have "es \<noteq> []"
    proof
      assume "es = []"
      with x y have "ss = y # ys" by simp
      then have "y \<in> set ss" by simp
      then have "shared s y" by (rule c(2))
      with y(2) show False by (simp add: shared_iff)
    qed
    then obtain es' where es: "es = y # es'" using x y by (cases es) auto
    with x y have ys: "ys = es' @ ss" by simp
    from Wake_exclusive_head [OF l d [unfolded y(1)] w [unfolded y(1)] y(2)]
    obtain s' where W: "Wake wakeList s = Some s'" and d': "dlist (mem s') ?H ys"
      and f: "m_waitersListHead s' = ?H" "m_firstSharedWaiter s' = m_firstSharedWaiter s"
      and k: "\<And>a. a \<noteq> wakeList \<Longrightarrow> exclusive s' a = exclusive s a"
      by blast
    note fc = waiters_ok_fresh_classes [of wakeList s' s ?H xs, OF k w]
    have "waiters_ok s' (es' @ ss)"
    proof (rule waiters_okI)
      show "dlist (mem s') (m_waitersListHead s') (es' @ ss)" using d' f ys by simp
      show "exclusive s' a" if "a \<in> set es'" for a
        using that fc(1) [of a] c(1) [of a] x es by simp
      show "shared s' a" if "a \<in> set ss" for a
        using that fc(2) [of a] c(2) [of a] x by simp
      show "m_firstSharedWaiter s' = hd (ss @ [m_waitersListHead s'])" using f c(4) by simp
      show "shared s' (m_waitersListHead s')" using fc(2) [of ?H] c(5) f by simp
    qed
    moreover have "Wake_rest s xs = ys"
      using Wake_rest_cases(1) [OF True] y by simp
    ultimately show ?thesis using W ys by auto
  next
    case False
    then have e: "xs = [] \<or> shared s (hd xs)" by (auto simp add: shared_iff)
    have "es = []"
    proof (rule ccontr)
      assume "es \<noteq> []"
      then have "hd xs \<in> set es" "xs \<noteq> []" using x by simp_all
      then have "exclusive s (hd xs)" using c(1) by blast
      with e \<open>xs \<noteq> []\<close> show False by (simp add: shared_iff)
    qed
    with x c(2) have "\<forall>a \<in> set xs. shared s a" by simp
    then have r: "dropWhile (shared s) xs = []" by simp
    from Wake_shared_head [OF l d w e]
    obtain s' where W: "Wake wakeList s = Some s'" and d': "dlist (mem s') ?H []"
      and f: "m_waitersListHead s' = ?H" "m_firstSharedWaiter s' = ?H"
      and k: "\<And>a. a \<noteq> wakeList \<Longrightarrow> exclusive s' a = exclusive s a"
      unfolding r using c(5) by auto
    note fc = waiters_ok_fresh_classes [of wakeList s' s ?H xs, OF k w]
    have "waiters_ok s' ([] @ [])"
      by (rule waiters_okI) (use d' f fc(2) [of ?H] c(5) in simp_all)
    moreover have "Wake_rest s xs = []"
      using Wake_rest_cases(2) [OF e] r by simp
    ultimately show ?thesis using W by auto
  qed
qed

lemma WakeShared_ok:
  assumes ok: "waiters_ok s xs" and l: "\<not> m_lock s"
    and w: "wakeList \<notin> set (m_waitersListHead s # xs)"
  shows "\<exists>s'. WakeShared wakeList s = Some s' \<and> waiters_ok s' (filter (exclusive s) xs) \<and>
           m_value s' = m_value s AND NOT LockWaiters"
proof -
  let ?H = "m_waitersListHead s"
  from ok obtain es ss where x: "xs = es @ ss" and fe: "es = filter (exclusive s) xs"
    and c: "\<And>a. a \<in> set es \<Longrightarrow> exclusive s a" "\<And>a. a \<in> set ss \<Longrightarrow> shared s a"
    "dlist (mem s) ?H (es @ ss)" "m_firstSharedWaiter s = hd (ss @ [?H])" "shared s ?H"
    by (rule waiters_okE) blast
  from WakeShared_result [OF l c(3) c(4) w [unfolded x]]
  obtain s' where W: "WakeShared wakeList s = Some s'" and d': "dlist (mem s') ?H es"
    and v: "m_value s' = m_value s AND NOT LockWaiters"
    and f: "m_waitersListHead s' = ?H" "m_firstSharedWaiter s' = ?H"
    and k: "\<And>a. a \<noteq> wakeList \<Longrightarrow> exclusive s' a = exclusive s a"
    by blast
  note fc = waiters_ok_fresh_classes [of wakeList s' s ?H xs, OF k w]
  have "waiters_ok s' (es @ [])"
  proof (rule waiters_okI)
    show "dlist (mem s') (m_waitersListHead s') (es @ [])" using d' f by simp
    show "exclusive s' a" if "a \<in> set es" for a
      using that fc(1) [of a] c(1) [of a] x by simp
    show "shared s' a" if "a \<in> set []" for a using that by simp
    show "m_firstSharedWaiter s' = hd ([] @ [m_waitersListHead s'])" using f by simp
    show "shared s' (m_waitersListHead s')" using fc(2) [of ?H] c(5) f by simp
  qed
  then show ?thesis using W v fe by auto
qed

lemma waiters_ok_cong:
  assumes ok: "waiters_ok s xs"
    and "m_waitersListHead s' = m_waitersListHead s"
    and "m_firstSharedWaiter s' = m_firstSharedWaiter s"
    and "\<And>a. a \<in> set (m_waitersListHead s # xs) \<Longrightarrow> Flink (mem s' a) = Flink (mem s a)"
    and "\<And>a. a \<in> set (m_waitersListHead s # xs) \<Longrightarrow> Blink (mem s' a) = Blink (mem s a)"
    and "\<And>a. a \<in> set (m_waitersListHead s # xs) \<Longrightarrow>
           Flags (mem s' a) AND WaiterExclusive = Flags (mem s a) AND WaiterExclusive"
  shows "waiters_ok s' xs"
proof -
  let ?H = "m_waitersListHead s"
  have d: "dlist (mem s') ?H xs = dlist (mem s) ?H xs"
    by (rule dlist_cong) (use assms(4,5) in blast)+
  have e: "filter (exclusive s') xs = filter (exclusive s) xs"
    by (rule filter_cong) (use assms(6) in \<open>simp_all add: exclusive_def\<close>)
  have sh: "filter (shared s') xs = filter (shared s) xs"
    by (rule filter_cong) (use assms(6) in \<open>simp_all add: shared_def\<close>)
  have h: "shared s' ?H = shared s ?H"
    using assms(6) [of ?H] by (simp add: shared_def)
  show ?thesis
    using ok unfolding waiters_ok_def assms(2,3) d e sh h .
qed

lemma waiters_ok_unique:
  assumes "waiters_ok s ys" and "dlist (mem s) (m_waitersListHead s) xs"
  shows "ys = xs"
  by (rule dlist_unique [of "mem s" "m_waitersListHead s"])
    (use assms in \<open>simp_all add: waiters_ok_def\<close>)

lemma reachable_ok:
  assumes "reachable s"
  shows "\<exists>xs. waiters_ok s xs"
  using assms
proof (induction rule: reachable.induct)
  case (new h sentinel spinCount processorCount)
  then have "waiters_ok (FairResourceLock_new spinCount processorCount sentinel h) []"
    by (simp add: waiters_ok_def FairResourceLock_new_def dlist_Nil shared_def)
  then show ?case ..
next
  case (acquire_exclusive s xs w)
  then obtain ys where "waiters_ok s ys" by blast
  moreover from this acquire_exclusive(2) have "ys = xs"
    by (rule waiters_ok_unique)
  ultimately show ?case using enqueue_ok(1) acquire_exclusive(3) by blast
next
  case (acquire_shared s xs w)
  then obtain ys where "waiters_ok s ys" by blast
  moreover from this acquire_shared(2) have "ys = xs"
    by (rule waiters_ok_unique)
  ultimately show ?case using enqueue_ok(2) acquire_shared(3) by blast
next
  case (convert_shared_to_exclusive s xs w)
  then obtain ys where "waiters_ok s ys" by blast
  moreover from this convert_shared_to_exclusive(2) have "ys = xs"
    by (rule waiters_ok_unique)
  ultimately show ?case using enqueue_ok(3) convert_shared_to_exclusive(3) by blast
next
  case (wake s xs wakeList s')
  then obtain ys where ok: "waiters_ok s ys" by blast
  moreover from this wake(2) have "ys = xs"
    by (rule waiters_ok_unique)
  moreover from wake(4) have "\<not> m_lock s"
    by (auto simp add: Wake_def split: if_splits)
  ultimately show ?case using Wake_ok [of s xs wakeList] wake(3,4) by auto
next
  case (wake_shared s xs wakeList s')
  then obtain ys where ok: "waiters_ok s ys" by blast
  moreover from this wake_shared(2) have "ys = xs"
    by (rule waiters_ok_unique)
  moreover from wake_shared(4) have "\<not> m_lock s"
    by (auto simp add: WakeShared_def split: if_splits)
  ultimately show ?case using WakeShared_ok [of s xs wakeList] wake_shared(3,4) by auto
next
  case (clear_spinning s a)
  then obtain xs where ok: "waiters_ok s xs" by blast
  have "waiters_ok (set_Flags a (Flags (mem s a) AND NOT WaiterSpinning) s) xs"
    using ok
    by (rule waiters_ok_cong) (simp_all add: set_Flags_def clear_Spinning_keeps_Exclusive)
  then show ?case ..
next
  case (state_word s v)
  then obtain xs where ok: "waiters_ok s xs" by blast
  have "waiters_ok (s\<lparr>m_value := v\<rparr>) xs"
    using ok by (rule waiters_ok_cong) simp_all
  then show ?case ..
next
  case (other_memory s xs a b)
  then obtain ys where ok: "waiters_ok s ys" by blast
  moreover from this other_memory(2) have "ys = xs"
    by (rule waiters_ok_unique)
  ultimately have ok': "waiters_ok s xs" by simp
  have ne: "c \<noteq> a" if "c \<in> set (m_waitersListHead s # xs)" for c
    using that other_memory(3) by auto
  have "waiters_ok (s\<lparr>mem := (mem s)(a := b)\<rparr>) xs"
    using ok' by (rule waiters_ok_cong) (simp_all add: ne)
  then show ?case ..
qed


text \<open>
  C6, as the code has it. Every state the operations reach from a constructor whose
  sentinel does not carry the exclusive bit has a well-formed list in which the
  exclusive blocks precede the shared ones and \<open>_firstSharedWaiter\<close> is the first
  shared block. From such a state, with a wait block \<open>w\<close> outside the list: the
  insertion of \<open>AcquireExclusive\<close> puts \<open>w\<close> behind the exclusive blocks and
  before the shared ones, that of \<open>AcquireShared\<close> puts it last, and that of
  \<open>ConvertSharedToExclusive\<close> puts it first, ahead of every block, exclusive ones
  included; \<open>Wake\<close> and \<open>WakeShared\<close> return and leave the remaining blocks in the
  order they had.
\<close>

theorem waiters_list_order:
  "(reachable s \<longrightarrow> (\<exists>xs. waiters_ok s xs)) \<and>
   (waiters_ok s xs \<and> w \<notin> set (m_waitersListHead s # xs) \<longrightarrow>
      waiters_ok (AcquireExclusive_enqueue w s)
        (filter (exclusive s) xs @ w # filter (shared s) xs) \<and>
      waiters_ok (AcquireShared_enqueue w s) (xs @ [w]) \<and>
      waiters_ok (ConvertSharedToExclusive_enqueue w s) (w # xs) \<and>
      (\<not> m_lock s \<longrightarrow>
         (\<exists>s'. Wake w s = Some s' \<and> waiters_ok s' (Wake_rest s xs)) \<and>
         (\<exists>s'. WakeShared w s = Some s' \<and> waiters_ok s' (filter (exclusive s) xs))))"
proof -
  have "\<exists>s'. WakeShared w s = Some s' \<and> waiters_ok s' (filter (exclusive s) xs)"
    if "waiters_ok s xs" "\<not> m_lock s" "w \<notin> set (m_waitersListHead s # xs)"
    using WakeShared_ok [OF that] by blast
  then show ?thesis
    using reachable_ok enqueue_ok Wake_ok by blast
qed

lemma example_waiting_reachable: "reachable example_waiting"
proof -
  have "reachable (FairResourceLock_new 0 2 100 zero_mem)"
    by (rule reachable.new) (simp add: zero_mem_def)
  then have r: "reachable (example_lock 0 3)"
    unfolding example_lock_def by (rule reachable.state_word)
  show ?thesis
    unfolding example_waiting_def
    by (rule reachable.acquire_exclusive [OF r, of "[]"])
      (simp_all add: example_lock_def FairResourceLock_new_def dlist_Nil)
qed

lemma example_waiting_ok: "waiters_ok example_waiting [10]"
  by (simp add: waiters_ok_def list_example_defs dlist_def exclusive_def shared_def)

theorem waiters_list_order_witness:
  "reachable example_waiting \<and> waiters_ok example_waiting [10] \<and>
   12 \<notin> set (m_waitersListHead example_waiting # [10]) \<and> \<not> m_lock example_waiting \<and>
   (\<exists>xs. waiters_ok example_waiting xs) \<and>
   waiters_ok (AcquireExclusive_enqueue 12 example_waiting) [10, 12] \<and>
   waiters_ok (AcquireShared_enqueue 12 example_waiting) [10, 12] \<and>
   waiters_ok (ConvertSharedToExclusive_enqueue 12 example_waiting) [12, 10] \<and>
   (\<exists>s'. Wake 12 example_waiting = Some s' \<and> waiters_ok s' []) \<and>
   (\<exists>s'. WakeShared 12 example_waiting = Some s' \<and> waiters_ok s' [10])"
proof -
  have h: "12 \<notin> set (m_waitersListHead example_waiting # [10])" "\<not> m_lock example_waiting"
    by (simp_all add: example_lists)
  have c: "exclusive example_waiting 10" "\<not> shared example_waiting 10"
    "Wake_rest example_waiting [10] = []"
    using example_lists(9) by (simp_all add: shared_iff Wake_rest_def)
  show ?thesis
    using waiters_list_order [of example_waiting "[10]" 12]
      example_waiting_reachable example_waiting_ok h
    by (simp add: c)
qed

text \<open>
  C6, as the specification has it, fails for the insertion at \<open>First\<close>. Block 10
  waits for exclusive access. The block that \<open>ConvertSharedToExclusive\<close> enqueues
  afterwards, block 12, is exclusive too and stands before it.
\<close>

theorem ConvertSharedToExclusive_overtakes_exclusive_waiter:
  "dlist (mem example_waiting) 100 [10] \<and> exclusive example_waiting 10 \<and>
   dlist (mem (ConvertSharedToExclusive_enqueue 12 example_waiting)) 100 [12, 10] \<and>
   exclusive (ConvertSharedToExclusive_enqueue 12 example_waiting) 12 \<and>
   exclusive (ConvertSharedToExclusive_enqueue 12 example_waiting) 10"
  by (simp add: list_example_defs dlist_def exclusive_def)

text \<open>
  Why the sentinel's flags matter: \<open>Wake\<close> reads the \<open>Flags\<close> of the block its
  loop breaks with, and that block is the sentinel when the loop has emptied the list.
  With the exclusive bit in that never initialised word, \<open>Wake\<close> on a list holding
  the shared block 11 removes the block but leaves \<open>_firstSharedWaiter\<close> pointing to
  it and calls \<open>Unblock\<close> on the sentinel instead of block 11, whose spinning flag
  stays set.
\<close>

lemma Wake_with_exclusive_bit_in_sentinel:
  "dlist (mem example_dirty_sentinel) 100 [11] \<and>
   map_option (\<lambda>s'. dlist (mem s') 100 []) (Wake 50 example_dirty_sentinel) = Some True \<and>
   map_option m_firstSharedWaiter (Wake 50 example_dirty_sentinel) = Some 11 \<and>
   map_option (\<lambda>s'. Flags (mem s' 11)) (Wake 50 example_dirty_sentinel) = Some WaiterSpinning"
  by (simp add: example_dirty_sentinel_def list_example_defs Wake_def Wake_loop.simps
      unblock_wake_list.simps Unblock_eq dlist_def)


section \<open>Release of a shared owner\<close>

lemma ReleaseShared_step_writes_value_only:
  assumes "pc \<noteq> R_Wake"
  shows "\<exists>v'. snd (ReleaseShared_step wl pc t) = t\<lparr>m_value := v'\<rparr>"
proof -
  have e: "\<exists>v'. t = t\<lparr>m_value := v'\<rparr>"
    by (rule exI [of _ "m_value t"]) simp
  show ?thesis
  proof (cases pc)
    case R_Read
    then show ?thesis using e by (simp add: Let_def)
  next
    case (R_CompareExchange new v)
    then show ?thesis
      using e by (cases "m_value t = v") (auto simp add: CompareExchange_value_def)
  next
    case R_Wake
    with assms show ?thesis by simp
  next
    case R_Return
    then show ?thesis using e by simp
  qed
qed

lemma ReleaseShared_step_Wake:
  assumes "\<not> m_lock t" and "dlist (mem t) (m_waitersListHead t) xs"
    and "wl \<notin> set (m_waitersListHead t # xs)"
  shows "\<exists>t'. ReleaseShared_step wl R_Wake t = (R_Return, t') \<and> Wake wl t = Some t' \<and>
           dlist (mem t') (m_waitersListHead t') (Wake_rest t xs) \<and>
           m_value t' = (if Wake_clears t xs then m_value t AND NOT LockWaiters else m_value t)"
proof -
  from Wake_result [OF assms] obtain t' where "Wake wl t = Some t'"
    "dlist (mem t') (m_waitersListHead t') (Wake_rest t xs)"
    "m_value t' = (if Wake_clears t xs then m_value t AND NOT LockWaiters else m_value t)"
    by blast
  then show ?thesis by simp
qed

text \<open>
  C5. With at least one shared owner recorded in the state word \<open>v\<close> it reads,
  \<open>ReleaseShared\<close> attempts to replace \<open>v\<close> by \<open>v - LockSharedOwnersIncrement\<close> when
  there is more than one shared owner and by \<open>v - LockOwned - LockSharedOwnersIncrement\<close>
  when there is exactly one. When the \<open>CompareExchange\<close> finds \<open>v\<close> it stores that
  value and goes on to \<open>R_Wake\<close> exactly when \<open>v\<close> has the waiters bit; when it
  finds another value it stores nothing and reads again. Nothing else leads to
  \<open>R_Wake\<close>. On an owned lock the new word has one shared owner less, the same
  waiters bit, and the owned bit exactly when a shared owner remains.

  The step at \<open>R_Wake\<close> is the call of \<open>Wake\<close>: it waits while the list lock is
  held and otherwise returns in the state \<open>Wake\<close> leaves. On a well-formed list
  with the list lock free it returns, with the blocks \<open>Wake\<close> removes gone from the
  list and the waiters bit cleared when \<open>Wake\<close> clears it. Every other step of
  \<open>ReleaseShared\<close> writes the state word at most: it touches neither the list nor a
  wait block nor the keyed event. The step at \<open>R_Return\<close> does nothing.
\<close>

theorem ReleaseShared_transition:
  assumes "SharedOwners (m_value s) \<noteq> 0"
  shows "let v = m_value s;
             newValue = (if 1 < unat (SharedOwners v) then v - LockSharedOwnersIncrement
                         else v - LockOwned - LockSharedOwnersIncrement)
         in ReleaseShared_step wl R_Read s = (R_CompareExchange newValue v, s) \<and>
            (\<forall>t. m_value t = v \<longrightarrow>
                 ReleaseShared_step wl (R_CompareExchange newValue v) t =
                   (if Waiters v then R_Wake else R_Return, t\<lparr>m_value := newValue\<rparr>)) \<and>
            (\<forall>t. m_value t \<noteq> v \<longrightarrow>
                 ReleaseShared_step wl (R_CompareExchange newValue v) t = (R_Read, t)) \<and>
            (\<forall>pc t. fst (ReleaseShared_step wl pc t) = R_Wake \<longrightarrow>
                 pc = R_Wake \<or>
                 (\<exists>new v'. pc = R_CompareExchange new v' \<and> m_value t = v' \<and> Waiters v')) \<and>
            (Owned v \<longrightarrow>
               unat (SharedOwners newValue) = unat (SharedOwners v) - 1 \<and>
               Waiters newValue = Waiters v \<and>
               Owned newValue = (1 < unat (SharedOwners v))) \<and>
            (\<forall>t. ReleaseShared_step wl R_Wake t =
                 (case Wake wl t of None \<Rightarrow> (R_Wake, t) | Some t' \<Rightarrow> (R_Return, t'))) \<and>
            (\<forall>t xs. \<not> m_lock t \<and> dlist (mem t) (m_waitersListHead t) xs \<and>
                    wl \<notin> set (m_waitersListHead t # xs) \<longrightarrow>
                 (\<exists>t'. ReleaseShared_step wl R_Wake t = (R_Return, t') \<and>
                       Wake wl t = Some t' \<and>
                       dlist (mem t') (m_waitersListHead t') (Wake_rest t xs) \<and>
                       m_value t' = (if Wake_clears t xs then m_value t AND NOT LockWaiters
                                     else m_value t))) \<and>
            (\<forall>pc t. pc \<noteq> R_Wake \<longrightarrow>
                 (\<exists>v'. snd (ReleaseShared_step wl pc t) = t\<lparr>m_value := v'\<rparr>)) \<and>
            (\<forall>t. ReleaseShared_step wl R_Return t = (R_Return, t))"
proof -
  define v where "v = m_value s"
  define newValue where "newValue = (if 1 < unat (SharedOwners v) then v - LockSharedOwnersIncrement
                         else v - LockOwned - LockSharedOwnersIncrement)"
  from assms have pos: "unat (SharedOwners v) \<noteq> 0"
    by (simp add: v_def unat_eq_0)
  have read: "ReleaseShared_step wl R_Read s = (R_CompareExchange newValue v, s)"
    using pos by (auto simp add: Let_def SharedOwners_test v_def [symmetric] newValue_def)
  have ok: "\<forall>t. m_value t = v \<longrightarrow>
              ReleaseShared_step wl (R_CompareExchange newValue v) t =
              (if Waiters v then R_Wake else R_Return, t\<lparr>m_value := newValue\<rparr>)"
    by (simp add: CompareExchange_value_def Waiters_test)
  have fail: "\<forall>t. m_value t \<noteq> v \<longrightarrow>
                ReleaseShared_step wl (R_CompareExchange newValue v) t = (R_Read, t)"
    by (simp add: CompareExchange_value_def)
  have only: "\<forall>pc t. fst (ReleaseShared_step wl pc t) = R_Wake \<longrightarrow>
                 pc = R_Wake \<or>
                 (\<exists>new v'. pc = R_CompareExchange new v' \<and> m_value t = v' \<and> Waiters v')"
    using ReleaseShared_calls_Wake_only_after_CAS by blast
  have sem: "Owned v \<longrightarrow>
             unat (SharedOwners newValue) = unat (SharedOwners v) - 1 \<and>
             Waiters newValue = Waiters v \<and> Owned newValue = (1 < unat (SharedOwners v))"
  proof
    assume o: "Owned v"
    show "unat (SharedOwners newValue) = unat (SharedOwners v) - 1 \<and>
             Waiters newValue = Waiters v \<and> Owned newValue = (1 < unat (SharedOwners v))"
    proof (cases "1 < unat (SharedOwners v)")
      case True
      then show ?thesis
        using release_shared_many [OF True] o by (simp add: newValue_def)
    next
      case False
      with pos have "unat (SharedOwners v) = 1" by arith
      then show ?thesis
        using release_shared_last [OF _ o] False by (simp add: newValue_def)
    qed
  qed
  have call: "\<forall>t. ReleaseShared_step wl R_Wake t =
                 (case Wake wl t of None \<Rightarrow> (R_Wake, t) | Some t' \<Rightarrow> (R_Return, t'))"
    by simp
  have wake: "\<forall>t xs. \<not> m_lock t \<and> dlist (mem t) (m_waitersListHead t) xs \<and>
                    wl \<notin> set (m_waitersListHead t # xs) \<longrightarrow>
                 (\<exists>t'. ReleaseShared_step wl R_Wake t = (R_Return, t') \<and>
                       Wake wl t = Some t' \<and>
                       dlist (mem t') (m_waitersListHead t') (Wake_rest t xs) \<and>
                       m_value t' = (if Wake_clears t xs then m_value t AND NOT LockWaiters
                                     else m_value t))"
    using ReleaseShared_step_Wake by blast
  have frame: "\<forall>pc t. pc \<noteq> R_Wake \<longrightarrow>
                 (\<exists>v'. snd (ReleaseShared_step wl pc t) = t\<lparr>m_value := v'\<rparr>)"
    using ReleaseShared_step_writes_value_only by blast
  have ret: "\<forall>t. ReleaseShared_step wl R_Return t = (R_Return, t)"
    by simp
  show ?thesis
    unfolding Let_def v_def [symmetric] newValue_def [symmetric]
    by (intro conjI read ok fail only sem call wake frame ret)
qed

text \<open>The example lock held by one shared owner, state word 7, with the exclusive
  block 10 waiting: the release stores 2 and calls \<open>Wake\<close>, which takes block 10
  from the list and clears its spinning flag; the waiters bit stays.\<close>

lemma example_release:
  "m_value (set_value 7 example_waiting) = 7"
  "(set_value 7 example_waiting)\<lparr>m_value := 2\<rparr> = set_value 2 example_waiting"
  "m_value (set_value 11 example_waiting) \<noteq> 7"
  "\<not> m_lock (set_value 2 example_waiting)"
  "m_waitersListHead (set_value 2 example_waiting) = 100"
  "dlist (mem (set_value 2 example_waiting)) 100 [10]"
  "exclusive (set_value 2 example_waiting) 10"
  "m_value (set_value 2 example_waiting) = 2"
  by (simp_all add: list_example_defs dlist_def exclusive_def)

theorem ReleaseShared_transition_witness:
  "SharedOwners (m_value (set_value 7 example_waiting)) \<noteq> 0 \<and>
   ReleaseShared_step 50 R_Read (set_value 7 example_waiting) =
     (R_CompareExchange 2 7, set_value 7 example_waiting) \<and>
   ReleaseShared_step 50 (R_CompareExchange 2 7) (set_value 7 example_waiting) =
     (R_Wake, set_value 2 example_waiting) \<and>
   ReleaseShared_step 50 (R_CompareExchange 2 7) (set_value 11 example_waiting) =
     (R_Read, set_value 11 example_waiting) \<and>
   Owned 7 \<and> SharedOwners 2 = 0 \<and> Waiters 2 \<and> \<not> Owned 2 \<and>
   \<not> m_lock (set_value 2 example_waiting) \<and>
   dlist (mem (set_value 2 example_waiting))
     (m_waitersListHead (set_value 2 example_waiting)) [10] \<and>
   50 \<notin> set (m_waitersListHead (set_value 2 example_waiting) # [10]) \<and>
   (\<exists>t'. ReleaseShared_step 50 R_Wake (set_value 2 example_waiting) = (R_Return, t') \<and>
         Wake 50 (set_value 2 example_waiting) = Some t' \<and>
         dlist (mem t') (m_waitersListHead t') [] \<and> m_value t' = 2) \<and>
   map_option (\<lambda>t'. Flags (mem t' 10)) (Wake 50 (set_value 2 example_waiting)) =
     Some WaiterExclusive"
proof -
  have so: "SharedOwners 7 = 1" "SharedOwners 2 = 0"
    by (simp_all add: SharedOwners_drop_bit drop_bit_eq_div)
  have w: "Waiters 7" "Owned 7" by (simp_all add: Waiters_odd Owned_odd)
  have h: "SharedOwners (m_value (set_value 7 example_waiting)) \<noteq> 0"
    by (simp add: example_release so)
  have l: "\<not> m_lock (set_value 2 example_waiting)"
    "dlist (mem (set_value 2 example_waiting))
       (m_waitersListHead (set_value 2 example_waiting)) [10]"
    "50 \<notin> set (m_waitersListHead (set_value 2 example_waiting) # [10])"
    by (simp_all add: example_release)
  have r: "Wake_rest (set_value 2 example_waiting) [10] = []"
    "\<not> Wake_clears (set_value 2 example_waiting) [10]"
    using example_release(7) by (simp_all add: Wake_rest_def Wake_clears_def shared_iff)
  have f: "map_option (\<lambda>t'. Flags (mem t' 10)) (Wake 50 (set_value 2 example_waiting)) =
     Some WaiterExclusive"
    by (simp add: list_example_defs Wake_def Wake_loop.simps unblock_wake_list.simps
        Unblock_eq)
  note T = ReleaseShared_transition [OF h, of 50, unfolded Let_def example_release(1)]
  from T have 1: "ReleaseShared_step 50 R_Read (set_value 7 example_waiting) =
     (R_CompareExchange 2 7, set_value 7 example_waiting)"
    by (simp add: so LockOwned_def LockSharedOwnersIncrement_def)
  from T have "\<forall>t. m_value t = 7 \<longrightarrow>
                 ReleaseShared_step 50 (R_CompareExchange 2 7) t =
                   (if Waiters 7 then R_Wake else R_Return, t\<lparr>m_value := 2\<rparr>)"
    by (simp add: so LockOwned_def LockSharedOwnersIncrement_def)
  then have 2: "ReleaseShared_step 50 (R_CompareExchange 2 7) (set_value 7 example_waiting) =
     (R_Wake, set_value 2 example_waiting)"
    using example_release(1,2) w by simp
  from T have "\<forall>t. m_value t \<noteq> 7 \<longrightarrow>
                 ReleaseShared_step 50 (R_CompareExchange 2 7) t = (R_Read, t)"
    by (simp add: so LockOwned_def LockSharedOwnersIncrement_def)
  then have 3: "ReleaseShared_step 50 (R_CompareExchange 2 7) (set_value 11 example_waiting) =
     (R_Read, set_value 11 example_waiting)"
    using example_release(3) by blast
  from T w(2) have 4: "SharedOwners 2 = 0 \<and> Waiters 2 \<and> \<not> Owned 2"
    using so w by (simp add: LockOwned_def LockSharedOwnersIncrement_def unat_eq_0)
  from T have "\<forall>t xs. \<not> m_lock t \<and> dlist (mem t) (m_waitersListHead t) xs \<and>
                    50 \<notin> set (m_waitersListHead t # xs) \<longrightarrow>
                 (\<exists>t'. ReleaseShared_step 50 R_Wake t = (R_Return, t') \<and>
                       Wake 50 t = Some t' \<and>
                       dlist (mem t') (m_waitersListHead t') (Wake_rest t xs) \<and>
                       m_value t' = (if Wake_clears t xs then m_value t AND NOT LockWaiters
                                     else m_value t))"
    by (elim conjE)
  from this [rule_format, of "set_value 2 example_waiting" "[10]"] l
  have 5: "\<exists>t'. ReleaseShared_step 50 R_Wake (set_value 2 example_waiting) = (R_Return, t') \<and>
         Wake 50 (set_value 2 example_waiting) = Some t' \<and>
         dlist (mem t') (m_waitersListHead t') [] \<and> m_value t' = 2"
    unfolding r using r(2) example_release(8) by simp
  show ?thesis
    using h 1 2 3 4 5 w l f by (intro conjI) simp_all
qed


section \<open>Shared acquires and queued waiters\<close>

lemma AcquireShared_enqueue_list:
  assumes d: "dlist (mem s) (m_waitersListHead s) xs"
    and w: "w \<notin> set (m_waitersListHead s # xs)"
  shows "m_waitersListHead (AcquireShared_enqueue w s) = m_waitersListHead s"
    and "dlist (mem (AcquireShared_enqueue w s)) (m_waitersListHead s) (xs @ [w])"
    and "Flags (mem (AcquireShared_enqueue w s) w) = WaiterSpinning"
    and "m_value (AcquireShared_enqueue w s) = m_value s"
    and "m_lock (AcquireShared_enqueue w s) = m_lock s"
proof -
  let ?H = "m_waitersListHead s"
  let ?s1 = "set_Flags w WaiterSpinning s"
  let ?s' = "AcquireShared_enqueue w s"
  have m: "mem ?s' = InsertTailList ?H w (mem ?s1)"
    by (simp add: AcquireShared_enqueue_def AcquireShared_insert_def Let_def set_Flags_def)
  show "m_waitersListHead ?s' = ?H" "m_value ?s' = m_value s" "m_lock ?s' = m_lock s"
    by (simp_all add: AcquireShared_enqueue_def AcquireShared_insert_def Let_def set_Flags_def)
  have d1: "dlist (mem ?s1) ?H xs" using d by (rule set_Flags_dlist)
  show "dlist (mem ?s') ?H (xs @ [w])"
    unfolding m using d1 w by (rule dlist_InsertTailList_head)
  have "Blink (mem ?s1 ?H) = last (?H # xs)" using d1 by (rule dlist_Blink_head)
  moreover have "last (?H # xs) \<in> set (?H # xs)" by (rule last_in_set) simp
  ultimately have "w \<noteq> ?H" "w \<noteq> Blink (mem ?s1 ?H)" using w by auto
  then show "Flags (mem ?s' w) = WaiterSpinning"
    unfolding m by (simp add: InsertTailList_fields set_Flags_fields)
qed

lemma AcquireShared_slow_path_pcs:
  assumes "Owned (m_value s)" and "Waiters (m_value s)"
    and "word_sle (m_spinCount s) i" and "\<not> m_lock s"
  shows "pcs (AcquireShared_step env waitBlock sleep) [id, id, id, id] (A_Loop i) s =
           [A_Loop i, A_LockAcquire i (m_value s), A_SetWaiters i (m_value s), A_Insert i,
            A_Block i (B_Spin 0)]"
proof -
  have v: "m_value s OR LockWaiters = m_value s" using assms(2) by (rule set_waiters_bit)
  have l: "m_lock s = False" using assms(4) by simp
  show ?thesis
    using assms(1,2,3)
    by (simp add: Let_def Owned_test Waiters_def set_Flags_def CompareExchange_value_def v l)
qed

text \<open>
  C4. When the state word a shared acquire reads is owned, has the waiters bit and
  counts at least one shared owner, \<open>TryAcquireShared\<close> returns false at once and
  \<open>AcquireShared\<close> attempts no \<open>CompareExchange\<close> that would add an owner: it
  spins while its budget lasts and then takes the path that enqueues a wait block.
  Neither step changes the state word. With the budget spent and the list lock free,
  four steps without interference take \<open>AcquireShared\<close> from the top of its loop
  through \<open>_lock.Acquire()\<close>, the \<open>CompareExchange\<close> of the waiters bit and the
  insertion to \<open>Block\<close>. When the waiters list held the blocks \<open>xs\<close> and the wait
  block was not among them, the list then holds \<open>xs\<close> followed by the wait block,
  whose flags are \<open>WaiterSpinning\<close>; the state word is as it was and the list lock is
  free again. When in addition the exclusive blocks preceded the shared ones and
  \<open>_firstSharedWaiter\<close> was the first shared block, this is so afterwards, with the
  wait block among the shared ones.
\<close>

theorem shared_fast_path_respects_waiters:
  assumes "Owned (m_value s)" and "Waiters (m_value s)" and "SharedOwners (m_value s) \<noteq> 0"
  shows "TryAcquireShared_step Try_Read s = (Try_Return False, s) \<and>
         AcquireShared_step env waitBlock sleep (A_Loop i) s =
           (if word_sle (m_spinCount s) i
            then (A_LockAcquire i (m_value s), set_Flags waitBlock WaiterSpinning s)
            else (A_Loop (i + 1), s)) \<and>
         m_value (snd (AcquireShared_step env waitBlock sleep (A_Loop i) s)) = m_value s \<and>
         (word_sle (m_spinCount s) i \<and> \<not> m_lock s \<longrightarrow>
            run (AcquireShared_step env waitBlock sleep) [id, id, id, id] (A_Loop i) s =
              (A_Block i (B_Spin 0), AcquireShared_enqueue waitBlock s)) \<and>
         (word_sle (m_spinCount s) i \<and> \<not> m_lock s \<longrightarrow>
            pcs (AcquireShared_step env waitBlock sleep) [id, id, id, id] (A_Loop i) s =
              [A_Loop i, A_LockAcquire i (m_value s), A_SetWaiters i (m_value s), A_Insert i,
               A_Block i (B_Spin 0)]) \<and>
         (\<forall>xs. word_sle (m_spinCount s) i \<and> \<not> m_lock s \<and>
               dlist (mem s) (m_waitersListHead s) xs \<and>
               waitBlock \<notin> set (m_waitersListHead s # xs) \<longrightarrow>
            (\<exists>s'. run (AcquireShared_step env waitBlock sleep) [id, id, id, id] (A_Loop i) s =
                    (A_Block i (B_Spin 0), s') \<and>
                  m_waitersListHead s' = m_waitersListHead s \<and>
                  dlist (mem s') (m_waitersListHead s') (xs @ [waitBlock]) \<and>
                  Flags (mem s' waitBlock) = WaiterSpinning \<and>
                  m_value s' = m_value s \<and> \<not> m_lock s' \<and>
                  (waiters_ok s xs \<longrightarrow>
                     waiters_ok s' (xs @ [waitBlock]) \<and> shared s' waitBlock)))"
proof -
  have tas: "TryAcquireShared_step Try_Read s = (Try_Return False, s)"
    and step: "AcquireShared_step env waitBlock sleep (A_Loop i) s =
           (if word_sle (m_spinCount s) i
            then (A_LockAcquire i (m_value s), set_Flags waitBlock WaiterSpinning s)
            else (A_Loop (i + 1), s))"
    and val: "m_value (snd (AcquireShared_step env waitBlock sleep (A_Loop i) s)) = m_value s"
    using assms by (simp_all add: Let_def Owned_test Waiters_def set_Flags_def)
  have r: "word_sle (m_spinCount s) i \<and> \<not> m_lock s \<longrightarrow>
            run (AcquireShared_step env waitBlock sleep) [id, id, id, id] (A_Loop i) s =
              (A_Block i (B_Spin 0), AcquireShared_enqueue waitBlock s)"
    using AcquireShared_enqueues [OF assms(1,2)] by blast
  have p: "word_sle (m_spinCount s) i \<and> \<not> m_lock s \<longrightarrow>
            pcs (AcquireShared_step env waitBlock sleep) [id, id, id, id] (A_Loop i) s =
              [A_Loop i, A_LockAcquire i (m_value s), A_SetWaiters i (m_value s), A_Insert i,
               A_Block i (B_Spin 0)]"
    using AcquireShared_slow_path_pcs [OF assms(1,2)] by blast
  have q: "\<forall>xs. word_sle (m_spinCount s) i \<and> \<not> m_lock s \<and>
               dlist (mem s) (m_waitersListHead s) xs \<and>
               waitBlock \<notin> set (m_waitersListHead s # xs) \<longrightarrow>
            (\<exists>s'. run (AcquireShared_step env waitBlock sleep) [id, id, id, id] (A_Loop i) s =
                    (A_Block i (B_Spin 0), s') \<and>
                  m_waitersListHead s' = m_waitersListHead s \<and>
                  dlist (mem s') (m_waitersListHead s') (xs @ [waitBlock]) \<and>
                  Flags (mem s' waitBlock) = WaiterSpinning \<and>
                  m_value s' = m_value s \<and> \<not> m_lock s' \<and>
                  (waiters_ok s xs \<longrightarrow>
                     waiters_ok s' (xs @ [waitBlock]) \<and> shared s' waitBlock))"
  proof (intro allI impI, elim conjE)
    fix xs
    assume i: "word_sle (m_spinCount s) i" and l: "\<not> m_lock s"
      and d: "dlist (mem s) (m_waitersListHead s) xs"
      and w: "waitBlock \<notin> set (m_waitersListHead s # xs)"
    let ?s' = "AcquireShared_enqueue waitBlock s"
    note e = AcquireShared_enqueue_list [OF d w]
    have "run (AcquireShared_step env waitBlock sleep) [id, id, id, id] (A_Loop i) s =
            (A_Block i (B_Spin 0), ?s')"
      using AcquireShared_enqueues [OF assms(1,2) i l] .
    moreover have "dlist (mem ?s') (m_waitersListHead ?s') (xs @ [waitBlock])"
      using e(1,2) by simp
    moreover have "\<not> m_lock ?s'" using e(5) l by simp
    moreover have "shared ?s' waitBlock"
      using e(3) by (simp add: shared_def exclusive_flags)
    moreover have "waiters_ok s xs \<longrightarrow> waiters_ok ?s' (xs @ [waitBlock])"
      using enqueue_ok(2) [of s xs waitBlock] w by blast
    ultimately show "\<exists>s'. run (AcquireShared_step env waitBlock sleep) [id, id, id, id]
                            (A_Loop i) s = (A_Block i (B_Spin 0), s') \<and>
                  m_waitersListHead s' = m_waitersListHead s \<and>
                  dlist (mem s') (m_waitersListHead s') (xs @ [waitBlock]) \<and>
                  Flags (mem s' waitBlock) = WaiterSpinning \<and>
                  m_value s' = m_value s \<and> \<not> m_lock s' \<and>
                  (waiters_ok s xs \<longrightarrow>
                     waiters_ok s' (xs @ [waitBlock]) \<and> shared s' waitBlock)"
      using e(1,3,4) by blast
  qed
  show ?thesis
    by (intro conjI tas step val r p q)
qed

text \<open>The example lock with a spin count of 1 spins once; the example lock held by one
  shared owner, state word 7, with the exclusive block 10 waiting, takes the new
  shared block 11 behind block 10 and makes it \<open>_firstSharedWaiter\<close>.\<close>

lemma example_shared_acquire:
  "m_value (example_lock 1 7) = 7" "m_spinCount (example_lock 1 7) = 1"
  "m_value (set_value 7 example_waiting) = 7"
  "m_spinCount (set_value 7 example_waiting) = 0"
  "\<not> m_lock (set_value 7 example_waiting)"
  "m_waitersListHead (set_value 7 example_waiting) = 100"
  "dlist (mem (set_value 7 example_waiting)) 100 [10]"
  "waiters_ok (set_value 7 example_waiting) [10]"
  "m_firstSharedWaiter (AcquireShared_enqueue 11 (set_value 7 example_waiting)) = 11"
  by (simp_all add: list_example_defs dlist_def waiters_ok_def exclusive_def shared_def)

theorem shared_fast_path_respects_waiters_witness:
  "Owned (m_value (example_lock 1 7)) \<and> Waiters (m_value (example_lock 1 7)) \<and>
   SharedOwners (m_value (example_lock 1 7)) \<noteq> 0 \<and>
   TryAcquireShared_step Try_Read (example_lock 1 7) = (Try_Return False, example_lock 1 7) \<and>
   AcquireShared_step example_os 11 True (A_Loop 0) (example_lock 1 7) =
     (A_Loop 1, example_lock 1 7) \<and>
   Owned (m_value (set_value 7 example_waiting)) \<and>
   Waiters (m_value (set_value 7 example_waiting)) \<and>
   SharedOwners (m_value (set_value 7 example_waiting)) \<noteq> 0 \<and>
   word_sle (m_spinCount (set_value 7 example_waiting)) 0 \<and>
   \<not> m_lock (set_value 7 example_waiting) \<and>
   dlist (mem (set_value 7 example_waiting))
     (m_waitersListHead (set_value 7 example_waiting)) [10] \<and>
   11 \<notin> set (m_waitersListHead (set_value 7 example_waiting) # [10]) \<and>
   waiters_ok (set_value 7 example_waiting) [10] \<and>
   TryAcquireShared_step Try_Read (set_value 7 example_waiting) =
     (Try_Return False, set_value 7 example_waiting) \<and>
   pcs (AcquireShared_step example_os 11 True) [id, id, id, id] (A_Loop 0)
       (set_value 7 example_waiting) =
     [A_Loop 0, A_LockAcquire 0 7, A_SetWaiters 0 7, A_Insert 0, A_Block 0 (B_Spin 0)] \<and>
   (\<exists>s'. run (AcquireShared_step example_os 11 True) [id, id, id, id] (A_Loop 0)
            (set_value 7 example_waiting) = (A_Block 0 (B_Spin 0), s') \<and>
         dlist (mem s') 100 [10, 11] \<and> Flags (mem s' 11) = WaiterSpinning \<and>
         m_value s' = 7 \<and> \<not> m_lock s' \<and> waiters_ok s' [10, 11] \<and> shared s' 11 \<and>
         m_firstSharedWaiter s' = 11)"
proof -
  note x = example_shared_acquire
  have n: "Owned 7" "Waiters 7" "SharedOwners 7 \<noteq> 0"
    by (simp_all add: Owned_odd Waiters_odd SharedOwners_drop_bit drop_bit_eq_div)
  have h1: "Owned (m_value (example_lock 1 7))" "Waiters (m_value (example_lock 1 7))"
    "SharedOwners (m_value (example_lock 1 7)) \<noteq> 0"
    and h2: "Owned (m_value (set_value 7 example_waiting))"
    "Waiters (m_value (set_value 7 example_waiting))"
    "SharedOwners (m_value (set_value 7 example_waiting)) \<noteq> 0"
    by (simp_all add: x n)
  have c: "\<not> word_sle (1::int32) 0" "word_sle (0::int32) 0"
    by (simp_all add: word_sle_eq)
  have l: "word_sle (m_spinCount (set_value 7 example_waiting)) 0"
    "\<not> m_lock (set_value 7 example_waiting)"
    "dlist (mem (set_value 7 example_waiting))
       (m_waitersListHead (set_value 7 example_waiting)) [10]"
    "11 \<notin> set (m_waitersListHead (set_value 7 example_waiting) # [10])"
    "waiters_ok (set_value 7 example_waiting) [10]"
    by (simp_all add: x c)
  note A = shared_fast_path_respects_waiters [OF h1, of example_os 11 True 0]
  note B = shared_fast_path_respects_waiters [OF h2, of example_os 11 True 0]
  from A have 1:
    "TryAcquireShared_step Try_Read (example_lock 1 7) = (Try_Return False, example_lock 1 7)"
    "AcquireShared_step example_os 11 True (A_Loop 0) (example_lock 1 7) =
       (A_Loop 1, example_lock 1 7)"
    by (simp_all add: x c)
  from B have 2: "TryAcquireShared_step Try_Read (set_value 7 example_waiting) =
     (Try_Return False, set_value 7 example_waiting)"
    by (elim conjE)
  from B l have 3: "pcs (AcquireShared_step example_os 11 True) [id, id, id, id] (A_Loop 0)
       (set_value 7 example_waiting) =
     [A_Loop 0, A_LockAcquire 0 7, A_SetWaiters 0 7, A_Insert 0, A_Block 0 (B_Spin 0)]"
    unfolding x(3) by (elim conjE) blast
  from B l have 4: "run (AcquireShared_step example_os 11 True) [id, id, id, id] (A_Loop 0)
       (set_value 7 example_waiting) =
     (A_Block 0 (B_Spin 0), AcquireShared_enqueue 11 (set_value 7 example_waiting))"
    by (elim conjE) blast
  from B have "\<forall>xs. word_sle (m_spinCount (set_value 7 example_waiting)) 0 \<and>
               \<not> m_lock (set_value 7 example_waiting) \<and>
               dlist (mem (set_value 7 example_waiting))
                 (m_waitersListHead (set_value 7 example_waiting)) xs \<and>
               11 \<notin> set (m_waitersListHead (set_value 7 example_waiting) # xs) \<longrightarrow>
            (\<exists>s'. run (AcquireShared_step example_os 11 True) [id, id, id, id] (A_Loop 0)
                     (set_value 7 example_waiting) = (A_Block 0 (B_Spin 0), s') \<and>
                  m_waitersListHead s' = m_waitersListHead (set_value 7 example_waiting) \<and>
                  dlist (mem s') (m_waitersListHead s') (xs @ [11]) \<and>
                  Flags (mem s' 11) = WaiterSpinning \<and>
                  m_value s' = m_value (set_value 7 example_waiting) \<and> \<not> m_lock s' \<and>
                  (waiters_ok (set_value 7 example_waiting) xs \<longrightarrow>
                     waiters_ok s' (xs @ [11]) \<and> shared s' 11))"
    by (elim conjE)
  from this [rule_format, of "[10]"] l obtain s' where
    s': "run (AcquireShared_step example_os 11 True) [id, id, id, id] (A_Loop 0)
           (set_value 7 example_waiting) = (A_Block 0 (B_Spin 0), s')"
      "m_waitersListHead s' = m_waitersListHead (set_value 7 example_waiting)"
      "dlist (mem s') (m_waitersListHead s') ([10] @ [11])"
      "Flags (mem s' 11) = WaiterSpinning"
      "m_value s' = m_value (set_value 7 example_waiting)" "\<not> m_lock s'"
      "waiters_ok s' ([10] @ [11])" "shared s' 11"
    by blast
  from s'(1) 4 have "s' = AcquireShared_enqueue 11 (set_value 7 example_waiting)" by simp
  then have f: "m_firstSharedWaiter s' = 11" by (simp add: x)
  have 5: "\<exists>s'. run (AcquireShared_step example_os 11 True) [id, id, id, id] (A_Loop 0)
            (set_value 7 example_waiting) = (A_Block 0 (B_Spin 0), s') \<and>
         dlist (mem s') 100 [10, 11] \<and> Flags (mem s' 11) = WaiterSpinning \<and>
         m_value s' = 7 \<and> \<not> m_lock s' \<and> waiters_ok s' [10, 11] \<and> shared s' 11 \<and>
         m_firstSharedWaiter s' = 11"
    using s' f x(3,6) by (intro exI [of _ s']) simp
  show ?thesis
    using h1 h2 l 1 2 3 5 by (intro conjI) simp_all
qed

end
